theory Spec2Isabelle
  imports Main "HOL-Library.Signed_Division" "HOL-Library.Stream"
begin

section \<open>The maze generator of \<^verbatim>\<open>src/js/maze.js\<close>\<close>

text \<open>
  The class \<^verbatim>\<open>MazeGenerator\<close> is embedded as a record of its fields and one HOL function
  per method. Methods that mutate \<^verbatim>\<open>this\<close> take the record and return the updated one.
  A JavaScript \<^verbatim>\<open>TypeError\<close> (indexing \<^verbatim>\<open>undefined\<close>) is the left injection of a sum.
  \<^verbatim>\<open>Math.random\<close> is an explicit stream of draws that is threaded through the calls.
  Coordinates and dimensions are integer-valued Numbers. The model computes with exact
  integers, which is what the code computes while its numbers stay below \<open>2 ^ 53\<close> in
  magnitude; the constructor is also given with the rounding of Number arithmetic
  (\<open>MazeGenerator_num\<close>). The limits of a JavaScript engine are not part of the model:
  the recursion of \<^verbatim>\<open>carvePassages\<close> is as deep as it needs, and an array is as long
  as it needs (the language allows fewer than \<open>2 ^ 32\<close> elements). A statement that
  \<open>generate\<close> returns is about the code only where these limits are not reached.
\<close>

subsection \<open>Data\<close>

datatype error = TypeError

text \<open>The object literals \<^verbatim>\<open>{x, z}\<close> and \<^verbatim>\<open>{dx, dz}\<close> are pairs, first component x.\<close>

type_synonym pos = "int \<times> int"

type_synonym dir = "int \<times> int"

text \<open>
  A row is a JavaScript array of numbers. The program writes rows by index, and JavaScript
  accepts any index there (a write past the end extends the array, a negative index becomes
  a plain property), so a row is the partial map of its own properties; a key that is
  absent reads as \<^verbatim>\<open>undefined\<close>, here \<open>None\<close>. The outer array is only pushed to and
  read by index: it is a list.
\<close>

type_synonym row = "int \<rightharpoonup> int"

type_synonym rng = "nat stream"

record maze =
  width :: int
  height :: int
  grid :: "row list"
  start :: pos
  end_pos :: pos

subsection \<open>Array access\<close>

text \<open>\<^verbatim>\<open>this.grid[z]\<close>: \<^verbatim>\<open>undefined\<close> outside the indices of the outer array.\<close>

definition row_at :: "row list \<Rightarrow> int \<Rightarrow> row option" where
  "row_at g z = (if 0 \<le> z \<and> z < int (length g) then Some (g ! nat z) else None)"

text \<open>\<^verbatim>\<open>this.grid[z][x]\<close>: a TypeError when \<^verbatim>\<open>this.grid[z]\<close> is undefined.\<close>

definition read_cell :: "row list \<Rightarrow> int \<Rightarrow> int \<Rightarrow> error + int option" where
  "read_cell g x z = (case row_at g z of None \<Rightarrow> Inl TypeError | Some r \<Rightarrow> Inr (r x))"

text \<open>\<^verbatim>\<open>this.grid[z][x] = v\<close>: a TypeError when \<^verbatim>\<open>this.grid[z]\<close> is undefined.\<close>

definition write_cell :: "row list \<Rightarrow> int \<Rightarrow> int \<Rightarrow> int \<Rightarrow> error + row list" where
  "write_cell g x z v =
     (case row_at g z of None \<Rightarrow> Inl TypeError | Some r \<Rightarrow> Inr (g[nat z := r(x \<mapsto> v)]))"

subsection \<open>Constructor\<close>

text \<open>JavaScript's \<^verbatim>\<open>%\<close> takes the sign of the dividend: it is \<open>smod\<close>.\<close>

definition MazeGenerator :: "int \<Rightarrow> int \<Rightarrow> maze" where
  "MazeGenerator w h =
     (let width' = (if w smod 2 = 0 then w + 1 else w);
          height' = (if h smod 2 = 0 then h + 1 else h)
      in \<lparr>width = width', height = height', grid = [],
          start = (1, 1), end_pos = (width' - 2, height' - 2)\<rparr>)"

text \<open>
  \<open>MazeGenerator\<close> above adds and subtracts exactly. The code's Numbers are doubles: a sum
  or difference of integers is the exact result rounded to the nearest double, a tie going
  to the even significand. Doubles of magnitude below \<open>2 ^ 53\<close> are one apart, and the
  spacing doubles with each further power of two: \<open>ulp n\<close> is the spacing at magnitude
  \<open>n\<close>. (No receivable input leads to an overflow: near the largest double the spacing is
  far above 2.) \<open>MazeGenerator_num\<close> is the constructor with this rounding; \<^verbatim>\<open>%\<close> is
  exact on doubles.
\<close>

function ulp :: "nat \<Rightarrow> nat" where
  "ulp n = (if n < 2 ^ 53 then 1 else 2 * ulp (n div 2))"
  by pat_completeness auto
termination
  by (relation "measure id") auto

declare ulp.simps [simp del]

definition round_double :: "int \<Rightarrow> int" where
  "round_double k =
     (let q = int (ulp (nat \<bar>k\<bar>)); a = k div q; r = k mod q in
      if 2 * r < q then a * q
      else if q < 2 * r then (a + 1) * q
      else if even a then a * q else (a + 1) * q)"

definition MazeGenerator_num :: "int \<Rightarrow> int \<Rightarrow> maze" where
  "MazeGenerator_num w h =
     (let width' = (if w smod 2 = 0 then round_double (w + 1) else w);
          height' = (if h smod 2 = 0 then round_double (h + 1) else h)
      in \<lparr>width = width', height = height', grid = [],
          start = (1, 1), end_pos = (round_double (width' - 2), round_double (height' - 2))\<rparr>)"

subsection \<open>shuffleArray\<close>

text \<open>
  \<^verbatim>\<open>Math.floor(Math.random() * (i + 1))\<close> is some integer in \<open>0..i\<close>. The model takes the
  next draw of the stream and reduces it to that range, so that every stream is a possible
  behaviour of the random source and every behaviour is some stream.
  \<open>shuffle_from i\<close> is the loop \<^verbatim>\<open>for (let i = ...; i > 0; i--)\<close> entered with index \<open>i\<close>.
\<close>

fun shuffle_from :: "nat \<Rightarrow> 'a list \<Rightarrow> rng \<Rightarrow> 'a list \<times> rng" where
  "shuffle_from 0 xs r = (xs, r)"
| "shuffle_from (Suc i) xs r =
     (let j = shd r mod (Suc i + 1)
      in shuffle_from i (xs[Suc i := xs ! j, j := xs ! Suc i]) (stl r))"

definition shuffleArray :: "'a list \<Rightarrow> rng \<Rightarrow> 'a list \<times> rng" where
  "shuffleArray array r = shuffle_from (length array - 1) array r"

subsection \<open>carvePassages\<close>

definition directions :: "dir list" where
  "directions = [(0, -2), (2, 0), (0, 2), (-2, 0)]"

text \<open>
  \<open>carve_loop x z ds\<close> is the \<^verbatim>\<open>for (const dir of directions)\<close> loop of
  \<^verbatim>\<open>carvePassages(x, z)\<close> with the directions \<open>ds\<close> still to try. The bounds test
  short-circuits before the grid is read. \<^verbatim>\<open>dir.dx / 2\<close> is exact on the offsets used.
\<close>

function carvePassages :: "int \<Rightarrow> int \<Rightarrow> maze \<Rightarrow> rng \<Rightarrow> error + maze \<times> rng"
  and carve_loop :: "int \<Rightarrow> int \<Rightarrow> dir list \<Rightarrow> maze \<Rightarrow> rng \<Rightarrow> error + maze \<times> rng"
where
  "carvePassages x z m r =
     (case write_cell (grid m) x z 0 of
        Inl e \<Rightarrow> Inl e
      | Inr g \<Rightarrow>
          (case shuffleArray directions r of
             (ds, r') \<Rightarrow> carve_loop x z ds (m\<lparr>grid := g\<rparr>) r'))"
| "carve_loop x z [] m r = Inr (m, r)"
| "carve_loop x z (d # ds) m r =
     (let newX = x + fst d; newZ = z + snd d in
      if newX > 0 \<and> newX < width m - 1 \<and> newZ > 0 \<and> newZ < height m - 1 then
        (case read_cell (grid m) newX newZ of
           Inl e \<Rightarrow> Inl e
         | Inr v \<Rightarrow>
             if v = Some 1 then
               (case write_cell (grid m) (x + fst d div 2) (z + snd d div 2) 0 of
                  Inl e \<Rightarrow> Inl e
                | Inr g \<Rightarrow>
                    (case carvePassages newX newZ (m\<lparr>grid := g\<rparr>) r of
                       Inl e \<Rightarrow> Inl e
                     | Inr (m', r') \<Rightarrow> carve_loop x z ds m' r'))
             else carve_loop x z ds m r)
      else carve_loop x z ds m r)"
  by pat_completeness auto

subsection \<open>generate\<close>

text \<open>
  The two initialisation loops. \<open>fill_row x w row\<close> is the inner loop entered with counter
  \<open>x\<close>: \<^verbatim>\<open>row.push(1)\<close> stores at index \<^verbatim>\<open>row.length\<close>, which is \<open>x\<close> there.
  \<open>fill_grid z m g\<close> is the outer loop entered with counter \<open>z\<close>.
\<close>

function fill_row :: "int \<Rightarrow> int \<Rightarrow> row \<Rightarrow> row" where
  "fill_row x w row = (if x < w then fill_row (x + 1) w (row(x \<mapsto> 1)) else row)"
  by pat_completeness auto

termination
  by (relation "measure (\<lambda>(x, w, row). nat (w - x))") auto

declare fill_row.simps [simp del]

function fill_grid :: "int \<Rightarrow> maze \<Rightarrow> row list \<Rightarrow> row list" where
  "fill_grid z m g =
     (if z < height m then fill_grid (z + 1) m (g @ [fill_row 0 (width m) Map.empty]) else g)"
  by pat_completeness auto

termination
  by (relation "measure (\<lambda>(z, m, g). nat (height m - z))") auto

declare fill_grid.simps [simp del]

text \<open>
  \<open>generate\<close> returns the updated object; the grid that the method returns is its
  \<open>grid\<close> field. A TypeError leaves the method at once.
\<close>

definition generate :: "maze \<Rightarrow> rng \<Rightarrow> error + maze \<times> rng" where
  "generate m r =
     (let m0 = m\<lparr>grid := fill_grid 0 m []\<rparr> in
      case carvePassages 1 1 m0 r of
        Inl e \<Rightarrow> Inl e
      | Inr (m1, r1) \<Rightarrow>
          (case write_cell (grid m1) (fst (start m1)) (snd (start m1)) 0 of
             Inl e \<Rightarrow> Inl e
           | Inr g2 \<Rightarrow>
               (case write_cell g2 (fst (end_pos m1)) (snd (end_pos m1)) 0 of
                  Inl e \<Rightarrow> Inl e
                | Inr g3 \<Rightarrow>
                    (case write_cell g3 (fst (end_pos m1)) (snd (end_pos m1)) 2 of
                       Inl e \<Rightarrow> Inl e
                     | Inr g4 \<Rightarrow> Inr (m1\<lparr>grid := g4\<rparr>, r1)))))"

subsection \<open>Queries\<close>

definition getStart :: "maze \<Rightarrow> pos" where
  "getStart m = start m"

definition getEnd :: "maze \<Rightarrow> pos" where
  "getEnd m = end_pos m"

definition isWall :: "maze \<Rightarrow> int \<Rightarrow> int \<Rightarrow> error + bool" where
  "isWall m x z =
     (if x < 0 \<or> x \<ge> width m \<or> z < 0 \<or> z \<ge> height m then Inr True
      else case read_cell (grid m) x z of Inl e \<Rightarrow> Inl e | Inr v \<Rightarrow> Inr (v = Some 1))"

definition isExit :: "maze \<Rightarrow> int \<Rightarrow> int \<Rightarrow> error + bool" where
  "isExit m x z =
     (if x < 0 \<or> x \<ge> width m \<or> z < 0 \<or> z \<ge> height m then Inr False
      else case read_cell (grid m) x z of Inl e \<Rightarrow> Inl e | Inr v \<Rightarrow> Inr (v = Some 2))"

definition getWidth :: "maze \<Rightarrow> int" where
  "getWidth m = width m"

definition getHeight :: "maze \<Rightarrow> int" where
  "getHeight m = height m"

section \<open>Notions of the statements and proofs\<close>

subsection \<open>Walls, frames, the inside\<close>

text \<open>
  \<open>walls m\<close> are the cells strictly inside the border that hold 1: the cells that the
  carving may still enter. \<open>inside\<close> is the bounds test of the loop.
\<close>

definition walls :: "maze \<Rightarrow> pos set" where
  "walls m = {(x, z). 0 < x \<and> x < width m - 1 \<and> 0 < z \<and> z < height m - 1 \<and>
                       read_cell (grid m) x z = Inr (Some 1)}"

definition inside :: "maze \<Rightarrow> int \<Rightarrow> int \<Rightarrow> bool" where
  "inside m x z \<longleftrightarrow> 0 < x \<and> x < width m - 1 \<and> 0 < z \<and> z < height m - 1"

text \<open>
  \<open>same_frame m m'\<close>: \<open>m'\<close> is \<open>m\<close> after some writes of 0 into the grid: the other
  fields and the number of rows are the same, and a cell that differs holds 0.
\<close>

definition same_frame :: "maze \<Rightarrow> maze \<Rightarrow> bool" where
  "same_frame m m' \<longleftrightarrow>
     width m' = width m \<and> height m' = height m \<and> start m' = start m \<and>
     end_pos m' = end_pos m \<and> length (grid m') = length (grid m) \<and>
     (\<forall>x z. read_cell (grid m') x z = read_cell (grid m) x z \<or>
            read_cell (grid m') x z = Inr (Some 0))"

text \<open>
  \<open>constructed\<close> holds of every object that the constructor returns, whatever its grid:
  it states the fields that \<open>generate\<close> reads.
\<close>

definition constructed :: "maze \<Rightarrow> bool" where
  "constructed m \<longleftrightarrow>
     odd (width m) \<and> odd (height m) \<and> start m = (1, 1) \<and>
     end_pos m = (width m - 2, height m - 2)"

subsection \<open>Open cells and carving steps\<close>

text \<open>
  The open cells of a maze are the cells that \<open>isWall\<close> reports as not a wall. One
  carving step goes from an open cell with odd coordinates to a closed in-range cell two
  steps away, and opens that cell and the cell between the two.
\<close>

definition open_cells :: "maze \<Rightarrow> pos set" where
  "open_cells m = {(x, z). isWall m x z = Inr False}"

definition carve_step :: "int \<Rightarrow> int \<Rightarrow> pos set \<Rightarrow> pos set \<Rightarrow> bool" where
  "carve_step w h S S' \<longleftrightarrow>
     (\<exists>x z d. (x, z) \<in> S \<and> odd x \<and> odd z \<and> d \<in> set directions \<and>
        0 < x + fst d \<and> x + fst d < w - 1 \<and> 0 < z + snd d \<and> z + snd d < h - 1 \<and>
        (x + fst d, z + snd d) \<notin> S \<and>
        S' = insert (x + fst d, z + snd d) (insert (x + fst d div 2, z + snd d div 2) S))"

subsection \<open>The passage graph\<close>

text \<open>
  Cells with two odd coordinates are rooms; the other cells that are ever opened lie
  between two rooms, \<open>lo\<close> and \<open>hi\<close>. Two cells are adjacent when they differ by one in
  one coordinate. The nodes of the passage graph are the open cells; its edges are the pairs
  of adjacent open cells, each pair once (the second cell is to the right of or below the
  first). The cells are connected when every open cell is reached from every other one
  along adjacent open cells.
\<close>

definition room :: "pos \<Rightarrow> bool" where
  "room p \<longleftrightarrow> odd (fst p) \<and> odd (snd p)"

definition lo :: "pos \<Rightarrow> pos" where
  "lo p = (if even (fst p) then (fst p - 1, snd p) else (fst p, snd p - 1))"

definition hi :: "pos \<Rightarrow> pos" where
  "hi p = (if even (fst p) then (fst p + 1, snd p) else (fst p, snd p + 1))"

definition adjacent :: "pos \<Rightarrow> pos \<Rightarrow> bool" where
  "adjacent p q \<longleftrightarrow> \<bar>fst p - fst q\<bar> + \<bar>snd p - snd q\<bar> = 1"

definition linked :: "pos set \<Rightarrow> pos \<Rightarrow> pos \<Rightarrow> bool" where
  "linked S p q \<longleftrightarrow> p \<in> S \<and> q \<in> S \<and> adjacent p q"



text \<open>
  The invariant of the carving: the room (1, 1) is open; every open cell is strictly inside
  the border and has an odd coordinate; an open cell that is not a room has both rooms next
  to it open; there is one more open room than other open cells; and every open cell is
  reached from (1, 1).
\<close>

definition tree_inv :: "int \<Rightarrow> int \<Rightarrow> pos set \<Rightarrow> bool" where
  "tree_inv w h S \<longleftrightarrow>
     (1, 1) \<in> S \<and>
     (\<forall>p\<in>S. 0 < fst p \<and> fst p < w - 1 \<and> 0 < snd p \<and> snd p < h - 1 \<and>
            (odd (fst p) \<or> odd (snd p))) \<and>
     (\<forall>p\<in>S. \<not> room p \<longrightarrow> lo p \<in> S \<and> hi p \<in> S) \<and>
     card {p \<in> S. room p} = card {p \<in> S. \<not> room p} + 1 \<and>
     (\<forall>p\<in>S. (linked S)\<^sup>*\<^sup>* (1, 1) p)"

subsection \<open>Closed rooms\<close>

text \<open>
  A room is closed when each of its in-range neighbours two steps away is open.
  \<open>fresh_closed m m'\<close>: every room that is open in \<open>m'\<close> and was not in \<open>m\<close> is closed.
\<close>

definition closed_in :: "maze \<Rightarrow> pos \<Rightarrow> bool" where
  "closed_in m p \<longleftrightarrow>
     (\<forall>d\<in>set directions. inside m (fst p + fst d) (snd p + snd d) \<longrightarrow>
        (fst p + fst d, snd p + snd d) \<in> open_cells m)"

definition fresh_closed :: "maze \<Rightarrow> maze \<Rightarrow> bool" where
  "fresh_closed m m' \<longleftrightarrow>
     (\<forall>p. p \<in> open_cells m' \<longrightarrow> p \<notin> open_cells m \<longrightarrow> room p \<longrightarrow> closed_in m' p)"

section \<open>Termination of the carving\<close>

text \<open>
  Every recursive call of \<open>carvePassages\<close> is on an interior cell that still holds 1, and
  the call overwrites it with 0; no write stores a 1. So the number of interior cells that
  hold 1 bounds the recursion. The call inside the loop is nested (the loop goes on in the
  state that the call returns): that the returned state has no new wall is proved first, on
  the domain of the function.
\<close>

lemma finite_walls: "finite (walls m)"
proof -
  have "walls m \<subseteq> {0..width m} \<times> {0..height m}"
    by (auto simp: walls_def)
  then show ?thesis by (rule finite_subset) simp
qed

lemma read_write_cell:
  "write_cell g x z v = Inr g' \<Longrightarrow>
     read_cell g' x' z' = (if x' = x \<and> z' = z then Inr (Some v) else read_cell g x' z')"
  by (auto simp: write_cell_def read_cell_def row_at_def nth_list_update split: option.splits if_splits)

lemma walls_write0:
  "write_cell (grid m) x z 0 = Inr g \<Longrightarrow> walls (m\<lparr>grid := g\<rparr>) = walls m - {(x, z)}"
  by (auto simp: walls_def read_write_cell)

lemma length_shuffle_from: "length (fst (shuffle_from i xs r)) = length xs"
  by (induction i xs r rule: shuffle_from.induct) (simp_all add: Let_def)

lemma length_shuffleArray: "shuffleArray xs r = (ys, r') \<Longrightarrow> length ys = length xs"
  using length_shuffle_from [of "length xs - 1" xs r] by (simp add: shuffleArray_def)

lemma carve_walls_partial:
  "carvePassages_carve_loop_dom (Inl (x, z, m, r)) \<Longrightarrow>
     carvePassages x z m r = Inr (m', r') \<Longrightarrow>
     walls m' \<subseteq> walls m \<and> width m' = width m \<and> height m' = height m"
  "carvePassages_carve_loop_dom (Inr (x, z, ds, m, r)) \<Longrightarrow>
     carve_loop x z ds m r = Inr (m', r') \<Longrightarrow>
     walls m' \<subseteq> walls m \<and> width m' = width m \<and> height m' = height m"
proof (induction x z m r and x z ds m r arbitrary: m' r' and m' r' rule: carvePassages_carve_loop.pinduct)
  case (1 x z m r)
  from "1.prems" "1.hyps" obtain g ds r1 where
    w: "write_cell (grid m) x z 0 = Inr g" and
    s: "(ds, r1) = shuffleArray directions r" and
    l: "carve_loop x z ds (m\<lparr>grid := g\<rparr>) r1 = Inr (m', r')"
    by (auto simp: carvePassages.psimps split: sum.splits prod.splits)
  from "1.IH" [OF w s l] walls_write0 [OF w] show ?case by auto
next
  case (2 x z m r)
  then show ?case by (simp add: carve_loop.psimps)
next
  case (3 x z d ds m r)
  let ?nx = "x + fst d" and ?nz = "z + snd d"
  let ?adm = "0 < ?nx \<and> ?nx < width m - 1 \<and> 0 < ?nz \<and> ?nz < height m - 1"
  show ?case
  proof (cases "?adm \<and> read_cell (grid m) ?nx ?nz = Inr (Some 1)")
    case True
    with "3.prems" "3.hyps" obtain g m1 r1 where
      w: "write_cell (grid m) (x + fst d div 2) (z + snd d div 2) 0 = Inr g" and
      c: "carvePassages ?nx ?nz (m\<lparr>grid := g\<rparr>) r = Inr (m1, r1)" and
      l: "carve_loop x z ds m1 r1 = Inr (m', r')"
      by (auto simp: carve_loop.psimps Let_def split: sum.splits prod.splits)
    from True have adm: ?adm and rd: "read_cell (grid m) ?nx ?nz = Inr (Some 1)" by auto
    from "3.IH"(1) [OF refl refl adm rd refl w c]
    have 1: "walls m1 \<subseteq> walls (m\<lparr>grid := g\<rparr>)" "width m1 = width m" "height m1 = height m"
      by auto
    from "3.IH"(2) [OF refl refl adm rd refl w c refl l]
    have 2: "walls m' \<subseteq> walls m1" "width m' = width m1" "height m' = height m1"
      by auto
    from 1 2 walls_write0 [OF w] show ?thesis by auto
  next
    case False
    with "3.prems" "3.hyps" have l: "carve_loop x z ds m r = Inr (m', r')"
      by (auto simp: carve_loop.psimps Let_def split: sum.splits if_splits)
    show ?thesis
    proof (cases ?adm)
      case True
      with False obtain v where rd: "read_cell (grid m) ?nx ?nz = Inr v" and v: "v \<noteq> Some 1"
        using "3.prems" "3.hyps"
        by (auto simp: carve_loop.psimps Let_def split: sum.splits if_splits)
      from "3.IH"(3) [OF refl refl True rd v l] show ?thesis .
    next
      case False
      from "3.IH"(4) [OF refl refl False l] show ?thesis .
    qed
  qed
qed

termination carvePassages
proof (relation "inv_image (less_than <*lex*> less_than)
    (\<lambda>a. case a of
        Inl (x, z, m, r) \<Rightarrow> (card (walls m - {(x, z)}), 5::nat)
      | Inr (x, z, ds, m, r) \<Rightarrow> (card (walls m), length ds))", goal_cases)
  case 1
  show ?case by (intro wf_inv_image wf_lex_prod wf_less_than)
next
  case (2 x z m r g ds r')
  then show ?case
    using length_shuffleArray [of directions r ds r']
    by (simp add: walls_write0 directions_def)
next
  case (3 x z d ds m r nx nz v g)
  then have "(nx, nz) \<in> walls m" by (simp add: walls_def)
  then have "card (walls m - {(nx, nz)}) < card (walls m)"
    by (intro card_Diff1_less finite_walls)
  moreover have "card (walls (m\<lparr>grid := g\<rparr>) - {(nx, nz)}) \<le> card (walls m - {(nx, nz)})"
    using 3 by (intro card_mono) (auto simp: finite_walls walls_write0)
  ultimately show ?case by simp
next
  case (4 x z d ds m r nx nz v g s m1 r1)
  then have "walls m1 \<subseteq> walls (m\<lparr>grid := g\<rparr>)"
    using carve_walls_partial(1) [of nx nz "m\<lparr>grid := g\<rparr>" r m1 r1] by simp
  with 4 have "walls m1 \<subseteq> walls m" by (auto simp: walls_write0)
  then have "card (walls m1) \<le> card (walls m)"
    by (intro card_mono) (auto simp: finite_walls)
  then show ?case by auto
next
  case 5
  then show ?case by simp
next
  case 6
  then show ?case by simp
qed

declare carvePassages.simps [simp del]

section \<open>The initial grid\<close>

lemma fill_row_gen:
  "fill_row x w row = (\<lambda>k. if x \<le> k \<and> k < w then Some 1 else row k)"
proof (induction x w row rule: fill_row.induct)
  case (1 x w row)
  show ?case
  proof (cases "x < w")
    case True
    then show ?thesis
      by (subst fill_row.simps) (auto simp: 1)
  next
    case False
    then show ?thesis
      by (subst fill_row.simps) (auto simp: fun_eq_iff)
  qed
qed

lemma fill_grid_gen:
  "fill_grid z m g = g @ replicate (nat (height m - z)) (fill_row 0 (width m) Map.empty)"
proof (induction z m g rule: fill_grid.induct)
  case (1 z m g)
  show ?case
  proof (cases "z < height m")
    case True
    then have eq: "nat (height m - z) = Suc (nat (height m - (z + 1)))" by simp
    from True show ?thesis
      by (subst fill_grid.simps) (simp add: 1 eq)
  next
    case False
    then show ?thesis
      by (subst fill_grid.simps) simp
  qed
qed

lemma length_fill_grid: "length (fill_grid 0 m []) = nat (height m)"
  by (simp add: fill_grid_gen)

lemma read_fill_grid:
  "read_cell (fill_grid 0 m []) x z =
     (if 0 \<le> z \<and> z < height m then Inr (if 0 \<le> x \<and> x < width m then Some 1 else None)
      else Inl TypeError)"
  by (auto simp: read_cell_def row_at_def fill_grid_gen fill_row_gen)

section \<open>The carving returns\<close>

lemma same_frame_refl: "same_frame m m"
  by (simp add: same_frame_def)

lemma same_frame_trans:
  assumes "same_frame m m1" and "same_frame m1 m2"
  shows "same_frame m m2"
proof -
  have "read_cell (grid m2) x z = read_cell (grid m) x z \<or>
        read_cell (grid m2) x z = Inr (Some 0)" for x z
    using assms unfolding same_frame_def by metis
  with assms show ?thesis by (simp add: same_frame_def)
qed

lemma write_cell_length: "write_cell g x z v = Inr g' \<Longrightarrow> length g' = length g"
  by (auto simp: write_cell_def split: option.splits)

lemma write_cell_ok:
  "0 \<le> z \<Longrightarrow> z < int (length g) \<Longrightarrow> \<exists>g'. write_cell g x z v = Inr g'"
  by (simp add: write_cell_def row_at_def)

lemma read_cell_ok:
  "0 \<le> z \<Longrightarrow> z < int (length g) \<Longrightarrow> \<exists>v. read_cell g x z = Inr v"
  by (simp add: read_cell_def row_at_def)

lemma same_frame_write:
  "write_cell (grid m) x z 0 = Inr g \<Longrightarrow> same_frame m (m\<lparr>grid := g\<rparr>)"
  by (simp add: same_frame_def write_cell_length read_write_cell)

lemma midpoint_between:
  fixes z dz h :: int
  shows "0 \<le> z \<Longrightarrow> z < h \<Longrightarrow> 0 < z + dz \<Longrightarrow> z + dz < h - 1 \<Longrightarrow>
     0 \<le> z + dz div 2 \<and> z + dz div 2 < h"
  by arith

lemma carve_loop_Cons:
  "carve_loop x z (d # ds) m r =
     (if inside m (x + fst d) (z + snd d) then
        (case read_cell (grid m) (x + fst d) (z + snd d) of
           Inl e \<Rightarrow> Inl e
         | Inr v \<Rightarrow>
             if v = Some 1 then
               (case write_cell (grid m) (x + fst d div 2) (z + snd d div 2) 0 of
                  Inl e \<Rightarrow> Inl e
                | Inr g \<Rightarrow>
                    (case carvePassages (x + fst d) (z + snd d) (m\<lparr>grid := g\<rparr>) r of
                       Inl e \<Rightarrow> Inl e
                     | Inr (m', r') \<Rightarrow> carve_loop x z ds m' r'))
             else carve_loop x z ds m r)
      else carve_loop x z ds m r)"
  by (simp add: inside_def Let_def)

lemma carve_loop_outside:
  "\<not> inside m (x + fst d) (z + snd d) \<Longrightarrow>
     carve_loop x z (d # ds) m r = carve_loop x z ds m r"
  by (simp add: carve_loop_Cons del: carve_loop.simps)

lemma carve_loop_visited:
  "inside m (x + fst d) (z + snd d) \<Longrightarrow> read_cell (grid m) (x + fst d) (z + snd d) = Inr v \<Longrightarrow>
     v \<noteq> Some 1 \<Longrightarrow> carve_loop x z (d # ds) m r = carve_loop x z ds m r"
  by (simp add: carve_loop_Cons del: carve_loop.simps)

lemma carve_loop_carve:
  "inside m (x + fst d) (z + snd d) \<Longrightarrow>
     read_cell (grid m) (x + fst d) (z + snd d) = Inr (Some 1) \<Longrightarrow>
     write_cell (grid m) (x + fst d div 2) (z + snd d div 2) 0 = Inr g \<Longrightarrow>
     carvePassages (x + fst d) (z + snd d) (m\<lparr>grid := g\<rparr>) r = Inr (m2, r2) \<Longrightarrow>
     carve_loop x z (d # ds) m r = carve_loop x z ds m2 r2"
  by (simp add: carve_loop_Cons del: carve_loop.simps)

lemma carvePassages_unfold:
  "write_cell (grid m) x z 0 = Inr g \<Longrightarrow> shuffleArray directions r = (ds, r1) \<Longrightarrow>
     carvePassages x z m r = carve_loop x z ds (m\<lparr>grid := g\<rparr>) r1"
  by (simp add: carvePassages.simps)

declare carve_loop.simps(2) [simp del]

lemma carve_returns:
  "length (grid m) = nat (height m) \<Longrightarrow> 0 \<le> z \<Longrightarrow> z < height m \<Longrightarrow>
     \<exists>m' r'. carvePassages x z m r = Inr (m', r') \<and> same_frame m m'"
  "length (grid m) = nat (height m) \<Longrightarrow> 0 \<le> z \<Longrightarrow> z < height m \<Longrightarrow>
     \<exists>m' r'. carve_loop x z ds m r = Inr (m', r') \<and> same_frame m m'"
proof (induction x z m r and x z ds m r rule: carvePassages_carve_loop.induct)
  case (1 x z m r)
  from "1.prems" obtain g where w: "write_cell (grid m) x z 0 = Inr g"
    using write_cell_ok [of z "grid m" x 0] by auto
  obtain ds r1 where s: "(ds, r1) = shuffleArray directions r"
    by (metis surj_pair)
  have "length (grid (m\<lparr>grid := g\<rparr>)) = nat (height (m\<lparr>grid := g\<rparr>))"
    using w "1.prems" by (simp add: write_cell_length)
  with "1.IH" [OF w s] "1.prems" obtain m' r' where
    l: "carve_loop x z ds (m\<lparr>grid := g\<rparr>) r1 = Inr (m', r')" and
    f: "same_frame (m\<lparr>grid := g\<rparr>) m'"
    by auto
  from l have "carvePassages x z m r = Inr (m', r')"
    by (simp add: carvePassages_unfold [OF w s [symmetric]])
  moreover from f same_frame_write [OF w] have "same_frame m m'"
    by (rule same_frame_trans [rotated])
  ultimately show ?case by blast
next
  case (2 x z m r)
  show ?case by (simp add: same_frame_refl)
next
  case (3 x z d ds m r)
  let ?nx = "x + fst d" and ?nz = "z + snd d"
  let ?adm = "0 < ?nx \<and> ?nx < width m - 1 \<and> 0 < ?nz \<and> ?nz < height m - 1"
  show ?case
  proof (cases ?adm)
    case adm: True
    with "3.prems" obtain v where rd: "read_cell (grid m) ?nx ?nz = Inr v"
      using read_cell_ok [of ?nz "grid m" ?nx] by auto
    show ?thesis
    proof (cases "v = Some 1")
      case True
      from adm "3.prems" have "0 \<le> z + snd d div 2 \<and> z + snd d div 2 < height m"
        by (intro midpoint_between) auto
      with "3.prems" obtain g where
        w: "write_cell (grid m) (x + fst d div 2) (z + snd d div 2) 0 = Inr g"
        using write_cell_ok [of "z + snd d div 2" "grid m" "x + fst d div 2" 0] by auto
      let ?m1 = "m\<lparr>grid := g\<rparr>"
      have len1: "length (grid ?m1) = nat (height ?m1)"
        using w "3.prems" by (simp add: write_cell_length)
      from adm have nz: "0 \<le> ?nz" "?nz < height ?m1" by auto
      from "3.IH"(1) [OF refl refl adm rd True w len1 nz] obtain m2 r2 where
        c: "carvePassages ?nx ?nz ?m1 r = Inr (m2, r2)" and f2: "same_frame ?m1 m2"
        by auto
      from f2 same_frame_write [OF w] have f02: "same_frame m m2"
        by (rule same_frame_trans [rotated])
      with "3.prems" have len2: "length (grid m2) = nat (height m2)" "0 \<le> z" "z < height m2"
        by (auto simp: same_frame_def)
      from "3.IH"(2) [OF refl refl adm rd True w c refl len2] obtain m' r' where
        l: "carve_loop x z ds m2 r2 = Inr (m', r')" and f3: "same_frame m2 m'"
        by auto
      from adm rd True have "carve_loop x z (d # ds) m r = carve_loop x z ds m2 r2"
        by (intro carve_loop_carve [OF _ _ w c]) (simp_all add: inside_def)
      with l have "carve_loop x z (d # ds) m r = Inr (m', r')" by simp
      moreover from f02 f3 have "same_frame m m'" by (rule same_frame_trans)
      ultimately show ?thesis by blast
    next
      case False
      from "3.IH"(3) [OF refl refl adm rd False "3.prems"] obtain m' r' where
        "carve_loop x z ds m r = Inr (m', r')" "same_frame m m'" by auto
      moreover from adm have "inside m ?nx ?nz" by (simp add: inside_def)
      ultimately show ?thesis using carve_loop_visited [OF _ rd False] by auto
    qed
  next
    case False
    from "3.IH"(4) [OF refl refl False "3.prems"] obtain m' r' where
      "carve_loop x z ds m r = Inr (m', r')" "same_frame m m'" by auto
    moreover from False have "\<not> inside m ?nx ?nz" by (simp add: inside_def)
    ultimately show ?thesis using carve_loop_outside by auto
  qed
qed

section \<open>The shuffle permutes\<close>

lemma set_shuffle_from:
  "i < length xs \<Longrightarrow> set (fst (shuffle_from i xs r)) = set xs"
proof (induction i xs r rule: shuffle_from.induct)
  case (1 xs r)
  then show ?case by simp
next
  case (2 i xs r)
  let ?j = "shd r mod (Suc i + 1)"
  have j: "?j < length xs" using "2.prems" by (simp add: less_le_trans [OF mod_less_divisor])
  have "set (xs[Suc i := xs ! ?j, ?j := xs ! Suc i]) = set xs"
    using "2.prems" j by (rule set_swap)
  with "2.IH" [OF refl] "2.prems" show ?case by (simp add: Let_def)
qed

lemma set_shuffleArray: "shuffleArray xs r = (ys, r') \<Longrightarrow> set ys = set xs"
proof (cases "xs = []")
  case True
  assume "shuffleArray xs r = (ys, r')"
  with True show ?thesis by (simp add: shuffleArray_def)
next
  case False
  assume "shuffleArray xs r = (ys, r')"
  then have "ys = fst (shuffle_from (length xs - 1) xs r)" by (simp add: shuffleArray_def)
  with False set_shuffle_from [of "length xs - 1" xs r] show ?thesis by simp
qed

section \<open>Carving as steps on the set of open cells\<close>

text \<open>
  The carving of the program is a sequence of carving steps on the set of open cells: each
  admissible direction of the loop is one step, followed by the steps of the recursive call.
\<close>

lemma carve_step_mono: "carve_step w h S S' \<Longrightarrow> S \<subseteq> S'"
  by (auto simp: carve_step_def)

lemma carve_steps_mono: "(carve_step w h)\<^sup>*\<^sup>* S S' \<Longrightarrow> S \<subseteq> S'"
  by (induction rule: rtranclp_induct) (auto dest: carve_step_mono)

lemma open_cells_write:
  assumes "write_cell (grid m) x z v = Inr g" and "v \<noteq> 1"
    and "0 \<le> x" "x < width m" "0 \<le> z" "z < height m"
  shows "open_cells (m\<lparr>grid := g\<rparr>) = insert (x, z) (open_cells m)"
  using assms by (auto simp: open_cells_def isWall_def read_write_cell split: if_splits)

lemma wall_not_open:
  "read_cell (grid m) x z = Inr (Some 1) \<Longrightarrow> (x, z) \<notin> open_cells m"
  by (simp add: open_cells_def isWall_def)

lemma carvePassages_InrD:
  assumes "carvePassages x z m r = Inr (m', r')"
  obtains g ds r1 where "write_cell (grid m) x z 0 = Inr g"
    and "shuffleArray directions r = (ds, r1)"
    and "carve_loop x z ds (m\<lparr>grid := g\<rparr>) r1 = Inr (m', r')"
  using assms by (auto simp: carvePassages.simps split: sum.splits prod.splits)

lemma carve_returns_frame:
  assumes "length (grid m) = nat (height m)" "0 \<le> z" "z < height m"
  shows "carvePassages x z m r = Inr (m', r') \<Longrightarrow> same_frame m m'"
    and "carve_loop x z ds m r = Inr (m', r') \<Longrightarrow> same_frame m m'"
  using carve_returns(1) [OF assms, of x r] carve_returns(2) [OF assms, of x ds r] by auto

lemma direction_cases:
  assumes "d \<in> set directions"
  obtains "d = (0, -2)" | "d = (2, 0)" | "d = (0, 2)" | "d = (-2, 0)"
  using assms by (auto simp: directions_def)

lemma inside_midpoint:
  assumes "d \<in> set directions" "inside m x z" "inside m (x + fst d) (z + snd d)"
  shows "0 \<le> x + fst d div 2" "x + fst d div 2 < width m"
    "0 \<le> z + snd d div 2" "z + snd d div 2 < height m"
  using assms(1) by (rule direction_cases; use assms(2,3) in \<open>simp add: inside_def\<close>)+

lemma carve_refines:
  "carvePassages x z m r = Inr (m', r') \<Longrightarrow> length (grid m) = nat (height m) \<Longrightarrow>
     odd x \<Longrightarrow> odd z \<Longrightarrow> inside m x z \<Longrightarrow>
     (carve_step (width m) (height m))\<^sup>*\<^sup>* (insert (x, z) (open_cells m)) (open_cells m')"
  "carve_loop x z ds m r = Inr (m', r') \<Longrightarrow> length (grid m) = nat (height m) \<Longrightarrow>
     odd x \<Longrightarrow> odd z \<Longrightarrow> inside m x z \<Longrightarrow> (x, z) \<in> open_cells m \<Longrightarrow>
     set ds \<subseteq> set directions \<Longrightarrow>
     (carve_step (width m) (height m))\<^sup>*\<^sup>* (open_cells m) (open_cells m')"
proof (induction x z m r and x z ds m r arbitrary: m' r' and m' r'
    rule: carvePassages_carve_loop.induct)
  case (1 x z m r)
  from "1.prems"(1) obtain g ds r1 where
    w: "write_cell (grid m) x z 0 = Inr g" and
    s: "shuffleArray directions r = (ds, r1)" and
    l: "carve_loop x z ds (m\<lparr>grid := g\<rparr>) r1 = Inr (m', r')"
    by (rule carvePassages_InrD)
  let ?m1 = "m\<lparr>grid := g\<rparr>"
  from "1.prems" have inb: "0 \<le> x" "x < width m" "0 \<le> z" "z < height m"
    by (auto simp: inside_def)
  have oc: "open_cells ?m1 = insert (x, z) (open_cells m)"
    using w _ inb by (rule open_cells_write) simp
  have "(carve_step (width ?m1) (height ?m1))\<^sup>*\<^sup>* (open_cells ?m1) (open_cells m')"
  proof (rule "1.IH" [OF w s [symmetric] l])
    show "length (grid ?m1) = nat (height ?m1)"
      using w "1.prems" by (simp add: write_cell_length)
    show "odd x" "odd z" by fact+
    show "inside ?m1 x z" using "1.prems" by (simp add: inside_def)
    show "(x, z) \<in> open_cells ?m1" by (simp add: oc)
    show "set ds \<subseteq> set directions" using set_shuffleArray [OF s] by simp
  qed
  then show ?case by (simp add: oc)
next
  case (2 x z m r)
  then show ?case by simp
next
  case (3 x z d ds m r)
  let ?nx = "x + fst d" and ?nz = "z + snd d"
  let ?adm = "0 < ?nx \<and> ?nx < width m - 1 \<and> 0 < ?nz \<and> ?nz < height m - 1"
  from "3.prems" have d: "d \<in> set directions" and ds: "set ds \<subseteq> set directions" by auto
  from "3.prems" have len: "length (grid m) = nat (height m)" by simp
  show ?case
  proof (cases ?adm)
    case adm: True
    then have ins: "inside m ?nx ?nz" by (simp add: inside_def)
    with len obtain v where rd: "read_cell (grid m) ?nx ?nz = Inr v"
      using read_cell_ok [of ?nz "grid m" ?nx] by (auto simp: inside_def)
    show ?thesis
    proof (cases "v = Some 1")
      case True
      with rd have rd1: "read_cell (grid m) ?nx ?nz = Inr (Some 1)" by simp
      from "3.prems"(1) ins rd1 obtain g m2 r2 where
        w: "write_cell (grid m) (x + fst d div 2) (z + snd d div 2) 0 = Inr g" and
        c: "carvePassages ?nx ?nz (m\<lparr>grid := g\<rparr>) r = Inr (m2, r2)" and
        l: "carve_loop x z ds m2 r2 = Inr (m', r')"
        by (auto simp: carve_loop_Cons split: sum.splits)
      let ?m1 = "m\<lparr>grid := g\<rparr>"
      have len1: "length (grid ?m1) = nat (height ?m1)"
        using w len by (simp add: write_cell_length)
      have oc1: "open_cells ?m1 = insert (x + fst d div 2, z + snd d div 2) (open_cells m)"
        using w _ inside_midpoint [OF d \<open>inside m x z\<close> ins] by (rule open_cells_write) simp
      from d \<open>odd x\<close> \<open>odd z\<close> have oddn: "odd ?nx" "odd ?nz"
        by (auto elim!: direction_cases)
      have "(carve_step (width ?m1) (height ?m1))\<^sup>*\<^sup>*
              (insert (?nx, ?nz) (open_cells ?m1)) (open_cells m2)"
        using c len1 oddn ins
        by (intro "3.IH"(1) [OF refl refl adm rd True w]) (simp_all add: inside_def)
      then have steps1: "(carve_step (width m) (height m))\<^sup>*\<^sup>*
              (insert (?nx, ?nz) (open_cells ?m1)) (open_cells m2)"
        by simp
      have step0: "carve_step (width m) (height m) (open_cells m)
              (insert (?nx, ?nz) (open_cells ?m1))"
        unfolding carve_step_def oc1
        using \<open>(x, z) \<in> open_cells m\<close> \<open>odd x\<close> \<open>odd z\<close> d adm wall_not_open [OF rd1]
        by blast
      have f2: "same_frame m m2"
      proof (rule same_frame_trans [OF same_frame_write [OF w]])
        show "same_frame ?m1 m2"
          using c by (rule carve_returns_frame(1) [OF len1, rotated 2]) (use adm in simp_all)
      qed
      have "(x, z) \<in> open_cells m2"
        using carve_steps_mono [OF steps1] \<open>(x, z) \<in> open_cells m\<close> oc1 by auto
      moreover have "length (grid m2) = nat (height m2)" "inside m2 x z"
        using f2 len \<open>inside m x z\<close> by (simp_all add: same_frame_def inside_def)
      ultimately have "(carve_step (width m2) (height m2))\<^sup>*\<^sup>* (open_cells m2) (open_cells m')"
        using l \<open>odd x\<close> \<open>odd z\<close> ds
        by (intro "3.IH"(2) [OF refl refl adm rd True w c refl])
      then have steps2: "(carve_step (width m) (height m))\<^sup>*\<^sup>* (open_cells m2) (open_cells m')"
        using f2 by (simp add: same_frame_def)
      from step0 steps1 steps2 show ?thesis by (meson converse_rtranclp_into_rtranclp rtranclp_trans)
    next
      case False
      from "3.prems"(1) have "carve_loop x z ds m r = Inr (m', r')"
        by (simp add: carve_loop_visited [OF ins rd False])
      with "3.prems" ds show ?thesis
        by (intro "3.IH"(3) [OF refl refl adm rd False])
    qed
  next
    case False
    then have "\<not> inside m ?nx ?nz" by (simp add: inside_def)
    with "3.prems"(1) have "carve_loop x z ds m r = Inr (m', r')"
      by (simp add: carve_loop_outside)
    with "3.prems" ds show ?thesis
      by (intro "3.IH"(4) [OF refl refl False])
  qed
qed

section \<open>The invariant of the carving\<close>

text \<open>\<open>tree_inv\<close> holds of the single room (1, 1), and every carving step keeps it.\<close>

lemma tree_inv_finite:
  assumes "tree_inv w h S"
  shows "finite S"
proof -
  have "S \<subseteq> {0..w} \<times> {0..h}"
    using assms by (fastforce simp: tree_inv_def)
  then show ?thesis by (rule finite_subset) simp
qed

lemma tree_inv_init: "3 \<le> w \<Longrightarrow> 3 \<le> h \<Longrightarrow> tree_inv w h {(1, 1)}"
proof -
  assume "3 \<le> w" "3 \<le> h"
  have "{p \<in> {(1::int, 1::int)}. room p} = {(1, 1)}" "{p \<in> {(1::int, 1::int)}. \<not> room p} = {}"
    by (auto simp: room_def)
  with \<open>3 \<le> w\<close> \<open>3 \<le> h\<close> show ?thesis
    by (simp add: tree_inv_def room_def)
qed

lemma step_shape:
  assumes "d \<in> set directions" "odd x" "odd z"
  defines "n \<equiv> (x + fst d, z + snd d)" and "c \<equiv> (x + fst d div 2, z + snd d div 2)"
  shows "room n" "\<not> room c" "odd (fst c) \<or> odd (snd c)" "{lo c, hi c} = {(x, z), n}"
    "adjacent (x, z) c" "adjacent c n"
  using assms(1)
  by (rule direction_cases; use assms(2,3) in
      \<open>auto simp: n_def c_def room_def lo_def hi_def adjacent_def\<close>)+

lemma linked_mono: "S \<subseteq> S' \<Longrightarrow> linked S p q \<Longrightarrow> linked S' p q"
  by (auto simp: linked_def)

lemma linked_steps_mono:
  assumes "S \<subseteq> S'" and "(linked S)\<^sup>*\<^sup>* p q"
  shows "(linked S')\<^sup>*\<^sup>* p q"
  using assms(2)
  by (induction rule: rtranclp_induct) (auto intro: rtranclp.rtrancl_into_rtrancl linked_mono [OF assms(1)])

lemma tree_inv_step:
  assumes inv: "tree_inv w h S" and step: "carve_step w h S S'"
  shows "tree_inv w h S'"
proof -
  from step obtain x z d where
    c: "(x, z) \<in> S" and odd: "odd x" "odd z" and d: "d \<in> set directions" and
    nin: "0 < x + fst d" "x + fst d < w - 1" "0 < z + snd d" "z + snd d < h - 1" and
    n: "(x + fst d, z + snd d) \<notin> S" and
    S': "S' = insert (x + fst d, z + snd d) (insert (x + fst d div 2, z + snd d div 2) S)"
    unfolding carve_step_def by blast
  let ?n = "(x + fst d, z + snd d)" and ?c = "(x + fst d div 2, z + snd d div 2)"
  note sh = step_shape [OF d odd]
  have fin: "finite S" using inv by (rule tree_inv_finite)
  have sub: "S \<subseteq> S'" using S' by auto
  have cin: "0 < x" "x < w - 1" "0 < z" "z < h - 1"
    using inv c by (auto simp: tree_inv_def)
  have mid: "?c \<notin> S"
  proof
    assume "?c \<in> S"
    with inv sh(2) have "lo ?c \<in> S \<and> hi ?c \<in> S" by (auto simp: tree_inv_def)
    then have "{lo ?c, hi ?c} \<subseteq> S" by simp
    with sh(4) n show False by simp
  qed
  have 1: "(1, 1) \<in> S'" using inv sub by (auto simp: tree_inv_def)
  have 2: "0 < fst p \<and> fst p < w - 1 \<and> 0 < snd p \<and> snd p < h - 1 \<and>
             (odd (fst p) \<or> odd (snd p))" if "p \<in> S'" for p
  proof -
    from that S' consider "p = ?n" | "p = ?c" | "p \<in> S" by auto
    then show ?thesis
    proof cases
      case 1
      with nin sh(1) show ?thesis by (simp add: room_def)
    next
      case 2
      have "0 < fst ?c \<and> fst ?c < w - 1 \<and> 0 < snd ?c \<and> snd ?c < h - 1"
        using cin nin by simp arith
      with 2 sh(3) show ?thesis by simp
    next
      case 3
      with inv show ?thesis by (auto simp: tree_inv_def)
    qed
  qed
  have 3: "lo p \<in> S' \<and> hi p \<in> S'" if "p \<in> S'" "\<not> room p" for p
  proof -
    from that S' sh(1) consider "p = ?c" | "p \<in> S" by auto
    then show ?thesis
    proof cases
      case 1
      have "{lo ?c, hi ?c} \<subseteq> S'" unfolding sh(4) using c S' by simp
      with 1 show ?thesis by simp
    next
      case 2
      with inv that(2) sub show ?thesis by (auto simp: tree_inv_def)
    qed
  qed
  have rooms: "{p \<in> S'. room p} = insert ?n {p \<in> S. room p}"
    using S' sh(1,2) by auto
  have mids: "{p \<in> S'. \<not> room p} = insert ?c {p \<in> S. \<not> room p}"
    using S' sh(1,2) by auto
  have 4: "card {p \<in> S'. room p} = card {p \<in> S'. \<not> room p} + 1"
    using inv fin n mid unfolding rooms mids by (simp add: tree_inv_def)
  have start_c: "(linked S')\<^sup>*\<^sup>* (1, 1) (x, z)"
    using inv c by (auto simp: tree_inv_def intro: linked_steps_mono [OF sub])
  have l1: "linked S' (x, z) ?c" using c sub S' sh(5) by (auto simp: linked_def)
  have l2: "linked S' ?c ?n" using S' sh(6) by (auto simp: linked_def)
  have 5: "(linked S')\<^sup>*\<^sup>* (1, 1) p" if "p \<in> S'" for p
  proof -
    from that S' consider "p = ?n" | "p = ?c" | "p \<in> S" by auto
    then show ?thesis
    proof cases
      case 1
      with start_c l1 l2 show ?thesis by (meson rtranclp.rtrancl_into_rtrancl)
    next
      case 2
      with start_c l1 show ?thesis by (meson rtranclp.rtrancl_into_rtrancl)
    next
      case 3
      with inv show ?thesis by (auto simp: tree_inv_def intro: linked_steps_mono [OF sub])
    qed
  qed
  from 1 2 3 4 5 show ?thesis unfolding tree_inv_def by blast
qed

lemma tree_inv_steps:
  assumes "(carve_step w h)\<^sup>*\<^sup>* S S'" and "tree_inv w h S"
  shows "tree_inv w h S'"
  using assms by (induction rule: rtranclp_induct) (auto intro: tree_inv_step)

section \<open>What the invariant gives: one component, one edge less than cells\<close>





section \<open>The carving visits every room\<close>

text \<open>
  When \<open>carvePassages\<close> returns, every room that it opened is closed: the depth-first
  search leaves no room with an unvisited neighbour.
\<close>

lemma open_cells_same_frame:
  assumes "same_frame m m'"
  shows "open_cells m \<subseteq> open_cells m'"
proof
  fix p assume "p \<in> open_cells m"
  then obtain x z where p: "p = (x, z)" and w: "isWall m x z = Inr False"
    by (auto simp: open_cells_def)
  then obtain v where inb: "\<not> (x < 0 \<or> x \<ge> width m \<or> z < 0 \<or> z \<ge> height m)"
    and rd: "read_cell (grid m) x z = Inr v" and v: "v \<noteq> Some 1"
    by (auto simp: isWall_def split: if_splits sum.splits)
  from assms have "read_cell (grid m') x z = read_cell (grid m) x z \<or>
      read_cell (grid m') x z = Inr (Some 0)"
    by (simp add: same_frame_def)
  then have "\<exists>v'. read_cell (grid m') x z = Inr v' \<and> v' \<noteq> Some 1"
    using rd v by auto
  moreover from assms have "width m' = width m" "height m' = height m"
    by (simp_all add: same_frame_def)
  ultimately have "isWall m' x z = Inr False"
    using inb by (auto simp: isWall_def)
  with p show "p \<in> open_cells m'" by (simp add: open_cells_def)
qed

lemma closed_in_same_frame:
  assumes "same_frame m m'" "closed_in m p"
  shows "closed_in m' p"
  using assms open_cells_same_frame [OF assms(1)]
  by (auto simp: closed_in_def inside_def same_frame_def)

lemma inside_same_frame: "same_frame m m' \<Longrightarrow> inside m' x z = inside m x z"
  by (simp add: inside_def same_frame_def)

lemma carve_complete:
  "carvePassages x z m r = Inr (m', r') \<Longrightarrow> length (grid m) = nat (height m) \<Longrightarrow>
     odd x \<Longrightarrow> odd z \<Longrightarrow> inside m x z \<Longrightarrow>
     (x, z) \<in> open_cells m' \<and> fresh_closed m m'"
  "carve_loop x z ds m r = Inr (m', r') \<Longrightarrow> length (grid m) = nat (height m) \<Longrightarrow>
     odd x \<Longrightarrow> odd z \<Longrightarrow> inside m x z \<Longrightarrow> set ds \<subseteq> set directions \<Longrightarrow>
     (\<forall>d\<in>set ds. inside m (x + fst d) (z + snd d) \<longrightarrow>
        (x + fst d, z + snd d) \<in> open_cells m') \<and> fresh_closed m m'"
proof (induction x z m r and x z ds m r arbitrary: m' r' and m' r'
    rule: carvePassages_carve_loop.induct)
  case (1 x z m r)
  from "1.prems"(1) obtain g ds r1 where
    w: "write_cell (grid m) x z 0 = Inr g" and
    s: "shuffleArray directions r = (ds, r1)" and
    l: "carve_loop x z ds (m\<lparr>grid := g\<rparr>) r1 = Inr (m', r')"
    by (rule carvePassages_InrD)
  let ?m1 = "m\<lparr>grid := g\<rparr>"
  from "1.prems" have inb: "0 \<le> x" "x < width m" "0 \<le> z" "z < height m"
    by (auto simp: inside_def)
  have oc: "open_cells ?m1 = insert (x, z) (open_cells m)"
    using w _ inb by (rule open_cells_write) simp
  have len1: "length (grid ?m1) = nat (height ?m1)"
    using w "1.prems" by (simp add: write_cell_length)
  have f1: "same_frame ?m1 m'"
    using l by (rule carve_returns_frame(2) [OF len1, rotated 2]) (use inb in simp_all)
  have ih: "(\<forall>d\<in>set ds. inside ?m1 (x + fst d) (z + snd d) \<longrightarrow>
        (x + fst d, z + snd d) \<in> open_cells m') \<and> fresh_closed ?m1 m'"
  proof (rule "1.IH" [OF w s [symmetric] l len1])
    show "odd x" "odd z" by fact+
    show "inside ?m1 x z" using "1.prems" by (simp add: inside_def)
    show "set ds \<subseteq> set directions" using set_shuffleArray [OF s] by simp
  qed
  have here: "(x, z) \<in> open_cells m'"
    using open_cells_same_frame [OF f1] oc by auto
  have "closed_in m' (x, z)"
    using ih set_shuffleArray [OF s] inside_same_frame [OF f1]
    by (simp add: closed_in_def)
  with ih have "fresh_closed m m'"
    unfolding fresh_closed_def oc by blast
  with here show ?case by simp
next
  case (2 x z m r)
  then show ?case by (simp add: fresh_closed_def)
next
  case (3 x z d ds m r)
  let ?nx = "x + fst d" and ?nz = "z + snd d"
  let ?adm = "0 < ?nx \<and> ?nx < width m - 1 \<and> 0 < ?nz \<and> ?nz < height m - 1"
  from "3.prems" have d: "d \<in> set directions" and ds: "set ds \<subseteq> set directions" by auto
  from "3.prems" have len: "length (grid m) = nat (height m)" by simp
  from \<open>inside m x z\<close> have z: "0 \<le> z" "z < height m" by (auto simp: inside_def)
  show ?case
  proof (cases ?adm)
    case adm: True
    then have ins: "inside m ?nx ?nz" by (simp add: inside_def)
    with len obtain v where rd: "read_cell (grid m) ?nx ?nz = Inr v"
      using read_cell_ok [of ?nz "grid m" ?nx] by (auto simp: inside_def)
    show ?thesis
    proof (cases "v = Some 1")
      case True
      with rd have rd1: "read_cell (grid m) ?nx ?nz = Inr (Some 1)" by simp
      from "3.prems"(1) ins rd1 obtain g m2 r2 where
        w: "write_cell (grid m) (x + fst d div 2) (z + snd d div 2) 0 = Inr g" and
        c: "carvePassages ?nx ?nz (m\<lparr>grid := g\<rparr>) r = Inr (m2, r2)" and
        l: "carve_loop x z ds m2 r2 = Inr (m', r')"
        by (auto simp: carve_loop_Cons split: sum.splits)
      let ?m1 = "m\<lparr>grid := g\<rparr>"
      have len1: "length (grid ?m1) = nat (height ?m1)"
        using w len by (simp add: write_cell_length)
      have oc1: "open_cells ?m1 = insert (x + fst d div 2, z + snd d div 2) (open_cells m)"
        using w _ inside_midpoint [OF d \<open>inside m x z\<close> ins] by (rule open_cells_write) simp
      note sh = step_shape [OF d \<open>odd x\<close> \<open>odd z\<close>]
      from sh(1) have oddn: "odd ?nx" "odd ?nz" by (simp_all add: room_def)
      have ih1: "(?nx, ?nz) \<in> open_cells m2 \<and> fresh_closed ?m1 m2"
        using c len1 oddn ins
        by (intro "3.IH"(1) [OF refl refl adm rd True w]) (simp_all add: inside_def)
      have f12: "same_frame ?m1 m2"
        using c by (rule carve_returns_frame(1) [OF len1, rotated 2]) (use adm in simp_all)
      have f2: "same_frame m m2"
        using same_frame_write [OF w] f12 by (rule same_frame_trans)
      have len2: "length (grid m2) = nat (height m2)" and ins2: "inside m2 x z"
        using f2 len \<open>inside m x z\<close> by (simp_all add: same_frame_def inside_def)
      have f3: "same_frame m2 m'"
        using l by (rule carve_returns_frame(2) [OF len2, rotated 2])
          (use z f2 in \<open>simp_all add: same_frame_def\<close>)
      have ih2: "(\<forall>d\<in>set ds. inside m2 (x + fst d) (z + snd d) \<longrightarrow>
          (x + fst d, z + snd d) \<in> open_cells m') \<and> fresh_closed m2 m'"
        using l len2 \<open>odd x\<close> \<open>odd z\<close> ins2 ds
        by (intro "3.IH"(2) [OF refl refl adm rd True w c refl])
      have a: "\<forall>d'\<in>set (d # ds). inside m (x + fst d') (z + snd d') \<longrightarrow>
          (x + fst d', z + snd d') \<in> open_cells m'"
        using ih1 ih2 open_cells_same_frame [OF f3] inside_same_frame [OF f2] by auto
      have b: "fresh_closed m m'"
        unfolding fresh_closed_def
      proof (intro allI impI)
        fix p assume p: "p \<in> open_cells m'" "p \<notin> open_cells m" "room p"
        with sh(2) have "p \<notin> open_cells ?m1" unfolding oc1 by auto
        show "closed_in m' p"
        proof (cases "p \<in> open_cells m2")
          case True
          with ih1 \<open>p \<notin> open_cells ?m1\<close> p(3) have "closed_in m2 p"
            unfolding fresh_closed_def by blast
          with f3 show ?thesis by (rule closed_in_same_frame)
        next
          case False
          with ih2 p show ?thesis unfolding fresh_closed_def by blast
        qed
      qed
      from a b show ?thesis by simp
    next
      case False
      from "3.prems"(1) have l: "carve_loop x z ds m r = Inr (m', r')"
        by (simp add: carve_loop_visited [OF ins rd False])
      have ih: "(\<forall>d\<in>set ds. inside m (x + fst d) (z + snd d) \<longrightarrow>
          (x + fst d, z + snd d) \<in> open_cells m') \<and> fresh_closed m m'"
        using l "3.prems" ds by (intro "3.IH"(3) [OF refl refl adm rd False])
      have "same_frame m m'"
        using l by (rule carve_returns_frame(2) [OF len z])
      moreover have "(?nx, ?nz) \<in> open_cells m"
        using adm rd False by (simp add: open_cells_def isWall_def)
      ultimately have "(?nx, ?nz) \<in> open_cells m'"
        using open_cells_same_frame by blast
      with ih show ?thesis by simp
    qed
  next
    case False
    then have out: "\<not> inside m ?nx ?nz" by (simp add: inside_def)
    with "3.prems"(1) have "carve_loop x z ds m r = Inr (m', r')"
      by (simp add: carve_loop_outside)
    with "3.prems" ds have "(\<forall>d\<in>set ds. inside m (x + fst d) (z + snd d) \<longrightarrow>
          (x + fst d, z + snd d) \<in> open_cells m') \<and> fresh_closed m m'"
      by (intro "3.IH"(4) [OF refl refl False])
    with out show ?thesis by simp
  qed
qed

text \<open>So every in-range room is open once the room (1, 1) is and all open rooms are closed.\<close>

lemma closed_in_south:
  "closed_in m (x, z) \<Longrightarrow> inside m x (z + 2) \<Longrightarrow> (x, z + 2) \<in> open_cells m"
  by (simp add: closed_in_def directions_def)

lemma closed_in_east:
  "closed_in m (x, z) \<Longrightarrow> inside m (x + 2) z \<Longrightarrow> (x + 2, z) \<in> open_cells m"
  by (simp add: closed_in_def directions_def)

lemma rooms_column:
  assumes "(1, 1) \<in> open_cells m" and "\<forall>p\<in>open_cells m. room p \<longrightarrow> closed_in m p"
  shows "inside m 1 (1 + 2 * int j) \<Longrightarrow> (1, 1 + 2 * int j) \<in> open_cells m"
proof (induction j)
  case 0
  from assms(1) show ?case by simp
next
  case (Suc j)
  then have "inside m 1 (1 + 2 * int j)" by (simp add: inside_def)
  then have "(1, 1 + 2 * int j) \<in> open_cells m" by (rule Suc.IH)
  moreover have "room (1, 1 + 2 * int j)" by (simp add: room_def)
  ultimately have "closed_in m (1, 1 + 2 * int j)" using assms(2) by blast
  moreover have "1 + 2 * int (Suc j) = 1 + 2 * int j + 2" by simp
  ultimately show ?case using Suc.prems closed_in_south by metis
qed

lemma rooms_all:
  assumes "(1, 1) \<in> open_cells m" and "\<forall>p\<in>open_cells m. room p \<longrightarrow> closed_in m p"
  shows "inside m (1 + 2 * int i) (1 + 2 * int j) \<Longrightarrow>
    (1 + 2 * int i, 1 + 2 * int j) \<in> open_cells m"
proof (induction i)
  case 0
  then show ?case using rooms_column [OF assms, of j] by simp
next
  case (Suc i)
  then have "inside m (1 + 2 * int i) (1 + 2 * int j)" by (simp add: inside_def)
  then have "(1 + 2 * int i, 1 + 2 * int j) \<in> open_cells m" by (rule Suc.IH)
  moreover have "room (1 + 2 * int i, 1 + 2 * int j)" by (simp add: room_def)
  ultimately have "closed_in m (1 + 2 * int i, 1 + 2 * int j)" using assms(2) by blast
  moreover have "1 + 2 * int (Suc i) = 1 + 2 * int i + 2" by simp
  ultimately show ?case using Suc.prems closed_in_east by metis
qed

lemma room_open:
  assumes "(1, 1) \<in> open_cells m" and "\<forall>p\<in>open_cells m. room p \<longrightarrow> closed_in m p"
    and "inside m x z" "odd x" "odd z"
  shows "(x, z) \<in> open_cells m"
proof -
  from \<open>odd x\<close> obtain k where k: "x = 2 * k + 1" by (rule oddE)
  from \<open>odd z\<close> obtain l where l: "z = 2 * l + 1" by (rule oddE)
  from k l assms(3) have "0 \<le> k" "0 \<le> l" by (simp_all add: inside_def)
  with k l have "x = 1 + 2 * int (nat k)" "z = 1 + 2 * int (nat l)" by simp_all
  with rooms_all [OF assms(1,2), of "nat k" "nat l"] assms(3) show ?thesis by simp
qed

section \<open>A run of generate\<close>

text \<open>The constructor establishes \<open>constructed\<close>, and the fresh grid has no open cell.\<close>

lemma smod2_zero_iff: "(w::int) smod 2 = 0 \<longleftrightarrow> even w"
  by (auto simp: signed_modulo_int_def sgn_if elim: oddE)

lemma constructed_MazeGenerator: "constructed (MazeGenerator w h)"
  by (simp add: constructed_def MazeGenerator_def Let_def smod2_zero_iff)

lemma open_cells_fill_grid: "open_cells (m\<lparr>grid := fill_grid 0 m []\<rparr>) = {}"
  by (auto simp: open_cells_def isWall_def read_fill_grid)

text \<open>The run of \<open>generate\<close>, step by step.\<close>

lemma generate_run:
  assumes "constructed m" and "3 \<le> height m"
  obtains m1 r1 g2 g3 g4 where
    "carvePassages 1 1 (m\<lparr>grid := fill_grid 0 m []\<rparr>) r = Inr (m1, r1)"
    "same_frame (m\<lparr>grid := fill_grid 0 m []\<rparr>) m1"
    "write_cell (grid m1) 1 1 0 = Inr g2"
    "write_cell g2 (width m - 2) (height m - 2) 0 = Inr g3"
    "write_cell g3 (width m - 2) (height m - 2) 2 = Inr g4"
    "generate m r = Inr (m1\<lparr>grid := g4\<rparr>, r1)"
proof -
  let ?m0 = "m\<lparr>grid := fill_grid 0 m []\<rparr>"
  have len0: "length (grid ?m0) = nat (height ?m0)" by (simp add: length_fill_grid)
  from carve_returns(1) [OF len0, of 1 1 r] assms(2) obtain m1 r1 where
    c: "carvePassages 1 1 ?m0 r = Inr (m1, r1)" and f: "same_frame ?m0 m1"
    by auto
  from f have len1: "int (length (grid m1)) = height m" and
    se: "start m1 = (1, 1)" "end_pos m1 = (width m - 2, height m - 2)"
    using assms by (simp_all add: same_frame_def length_fill_grid constructed_def)
  from len1 assms(2) obtain g2 where w2: "write_cell (grid m1) 1 1 0 = Inr g2"
    using write_cell_ok [of 1 "grid m1" 1 0] by auto
  from write_cell_length [OF w2] len1 assms(2) obtain g3 where
    w3: "write_cell g2 (width m - 2) (height m - 2) 0 = Inr g3"
    using write_cell_ok [of "height m - 2" g2 "width m - 2" 0] by auto
  from write_cell_length [OF w3] write_cell_length [OF w2] len1 assms(2) obtain g4 where
    w4: "write_cell g3 (width m - 2) (height m - 2) 2 = Inr g4"
    using write_cell_ok [of "height m - 2" g3 "width m - 2" 2] by auto
  from c se w2 w3 w4 have "generate m r = Inr (m1\<lparr>grid := g4\<rparr>, r1)"
    by (simp add: generate_def)
  with c f w2 w3 w4 show thesis by (rule that)
qed

text \<open>The result of \<open>generate\<close> on dimensions of at least 3.\<close>

lemma generate_result:
  assumes "constructed m" and "3 \<le> width m" and "3 \<le> height m"
  obtains m' r' where
    "generate m r = Inr (m', r')"
    "width m' = width m" "height m' = height m"
    "start m' = (1, 1)" "end_pos m' = (width m - 2, height m - 2)"
    "tree_inv (width m) (height m) (open_cells m')"
    "(width m - 2, height m - 2) \<in> open_cells m'"
    "\<And>x z. read_cell (grid m') x z = Inr (Some 2) \<longleftrightarrow> x = width m - 2 \<and> z = height m - 2"
    "\<And>x z. 0 \<le> x \<Longrightarrow> x < width m \<Longrightarrow> 0 \<le> z \<Longrightarrow> z < height m \<Longrightarrow>
       read_cell (grid m') x z = Inr (Some 0) \<or> read_cell (grid m') x z = Inr (Some 1) \<or>
       read_cell (grid m') x z = Inr (Some 2)"
    "read_cell (grid m') 1 1 = Inr (Some (if width m = 3 \<and> height m = 3 then 2 else 0))"
proof -
  let ?m0 = "m\<lparr>grid := fill_grid 0 m []\<rparr>"
  let ?w = "width m" and ?h = "height m"
  from generate_run [OF assms(1,3), of r] obtain m1 r1 g2 g3 g4 where
    c: "carvePassages 1 1 ?m0 r = Inr (m1, r1)" and
    f: "same_frame ?m0 m1" and
    w2: "write_cell (grid m1) 1 1 0 = Inr g2" and
    w3: "write_cell g2 (?w - 2) (?h - 2) 0 = Inr g3" and
    w4: "write_cell g3 (?w - 2) (?h - 2) 2 = Inr g4" and
    g: "generate m r = Inr (m1\<lparr>grid := g4\<rparr>, r1)"
    by blast
  let ?m' = "m1\<lparr>grid := g4\<rparr>"
  from f have dims: "width m1 = ?w" "height m1 = ?h" and
    se: "start m1 = (1, 1)" "end_pos m1 = (?w - 2, ?h - 2)"
    using assms(1) by (simp_all add: same_frame_def constructed_def)
  have len0: "length (grid ?m0) = nat (height ?m0)" by (simp add: length_fill_grid)
  have ins0: "inside ?m0 1 1" using assms(2,3) by (simp add: inside_def)
  have "(carve_step (width ?m0) (height ?m0))\<^sup>*\<^sup>* (insert (1, 1) (open_cells ?m0)) (open_cells m1)"
    using c len0 _ _ ins0 by (rule carve_refines(1)) simp_all
  then have "(carve_step ?w ?h)\<^sup>*\<^sup>* {(1, 1)} (open_cells m1)"
    by (simp add: open_cells_fill_grid)
  then have inv1: "tree_inv ?w ?h (open_cells m1)"
    using tree_inv_init [OF assms(2,3)] by (rule tree_inv_steps)
  have "(1, 1) \<in> open_cells m1 \<and> fresh_closed ?m0 m1"
    using c len0 _ _ ins0 by (rule carve_complete(1)) simp_all
  then have s1: "(1, 1) \<in> open_cells m1" and
    cl: "\<forall>p\<in>open_cells m1. room p \<longrightarrow> closed_in m1 p"
    by (auto simp: fresh_closed_def open_cells_fill_grid)
  have "odd (?w - 2)" "odd (?h - 2)" using assms(1) by (simp_all add: constructed_def)
  moreover have "inside m1 (?w - 2) (?h - 2)"
    using assms(2,3) dims by (simp add: inside_def)
  ultimately have e1: "(?w - 2, ?h - 2) \<in> open_cells m1"
    using room_open [OF s1 cl] by blast
  have o2: "open_cells (m1\<lparr>grid := g2\<rparr>) = insert (1, 1) (open_cells m1)"
    using w2 by (rule open_cells_write) (use assms(2,3) dims in simp_all)
  have o3: "open_cells (m1\<lparr>grid := g2, grid := g3\<rparr>) =
      insert (?w - 2, ?h - 2) (open_cells (m1\<lparr>grid := g2\<rparr>))"
    by (rule open_cells_write [where v = 0]) (use w3 assms(2,3) dims in simp_all)
  have o4: "open_cells (m1\<lparr>grid := g3, grid := g4\<rparr>) =
      insert (?w - 2, ?h - 2) (open_cells (m1\<lparr>grid := g3\<rparr>))"
    by (rule open_cells_write [where v = 2]) (use w4 assms(2,3) dims in simp_all)
  have oc: "open_cells ?m' = open_cells m1"
    using o2 o3 o4 s1 e1 by (simp add: insert_absorb)
  have rd: "read_cell g4 x z =
      (if x = ?w - 2 \<and> z = ?h - 2 then Inr (Some 2)
       else if x = 1 \<and> z = 1 then Inr (Some 0) else read_cell (grid m1) x z)" for x z
    by (simp add: read_write_cell [OF w4] read_write_cell [OF w3] read_write_cell [OF w2])
  have rd1: "read_cell (grid m1) x z = read_cell (fill_grid 0 m []) x z \<or>
      read_cell (grid m1) x z = Inr (Some 0)" for x z
    using f by (simp add: same_frame_def)
  have two: "read_cell (grid ?m') x z = Inr (Some 2) \<longleftrightarrow> x = ?w - 2 \<and> z = ?h - 2" for x z
    using rd1 [of x z] by (auto simp: rd read_fill_grid split: if_splits)
  have vals: "read_cell (grid ?m') x z = Inr (Some 0) \<or> read_cell (grid ?m') x z = Inr (Some 1) \<or>
       read_cell (grid ?m') x z = Inr (Some 2)"
    if "0 \<le> x" "x < ?w" "0 \<le> z" "z < ?h" for x z
    using rd1 [of x z] that by (auto simp: rd read_fill_grid)
  have st: "read_cell (grid ?m') 1 1 = Inr (Some (if ?w = 3 \<and> ?h = 3 then 2 else 0))"
    by (auto simp: rd)
  show thesis
  proof (rule that [of ?m' r1])
    show "generate m r = Inr (?m', r1)" by fact
    show "tree_inv ?w ?h (open_cells ?m')" using inv1 oc by simp
    show "(?w - 2, ?h - 2) \<in> open_cells ?m'" using e1 oc by simp
    show "read_cell (grid ?m') 1 1 = Inr (Some (if ?w = 3 \<and> ?h = 3 then 2 else 0))" by fact
  qed (use dims se two vals in simp_all)
qed

text \<open>When \<open>generate\<close> fails, and the shape of the grid when it returns.\<close>

lemma generate_fails:
  assumes "height m \<le> 1"
  shows "generate m r = Inl TypeError"
proof -
  have "row_at (fill_grid 0 m []) 1 = None"
    using assms by (auto simp: row_at_def length_fill_grid)
  then have "carvePassages 1 1 (m\<lparr>grid := fill_grid 0 m []\<rparr>) r = Inl TypeError"
    by (simp add: carvePassages.simps write_cell_def)
  then show ?thesis by (simp add: generate_def)
qed

lemma generate_shape:
  assumes "generate m r = Inr (m', r')"
  shows "width m' = width m" "height m' = height m" "length (grid m') = nat (height m)"
proof -
  let ?m0 = "m\<lparr>grid := fill_grid 0 m []\<rparr>"
  from assms generate_fails [of m r] have h: "1 < height m" by (cases "height m \<le> 1") auto
  from assms obtain m1 g2 g3 g4 where
    c: "carvePassages 1 1 ?m0 r = Inr (m1, r')" and
    w2: "write_cell (grid m1) (fst (start m1)) (snd (start m1)) 0 = Inr g2" and
    w3: "write_cell g2 (fst (end_pos m1)) (snd (end_pos m1)) 0 = Inr g3" and
    w4: "write_cell g3 (fst (end_pos m1)) (snd (end_pos m1)) 2 = Inr g4" and
    m': "m' = m1\<lparr>grid := g4\<rparr>"
    by (auto simp: generate_def Let_def split: sum.splits prod.splits)
  have "same_frame ?m0 m1"
    using c by (rule carve_returns_frame(1) [rotated 3]) (use h in \<open>simp_all add: length_fill_grid\<close>)
  then have "width m1 = width m" "height m1 = height m" "length (grid m1) = nat (height m)"
    by (simp_all add: same_frame_def length_fill_grid)
  with m' write_cell_length [OF w2] write_cell_length [OF w3] write_cell_length [OF w4]
  show "width m' = width m" "height m' = height m" "length (grid m') = nat (height m)"
    by simp_all
qed

lemma generate_returns:
  assumes "constructed m" and "3 \<le> height m"
  shows "\<exists>m' r'. generate m r = Inr (m', r')"
  using generate_run [OF assms, of r] by metis

lemma MazeGenerator_3_3:
  "width (MazeGenerator 3 3) = 3" "height (MazeGenerator 3 3) = 3"
  by (simp_all add: MazeGenerator_def signed_modulo_int_def)

section \<open>A run on a concrete input\<close>

text \<open>
  With a random source that always returns 0 every shuffle gives the order east, south,
  west, north, and the 5 by 5 maze is the U-shaped corridor from (1, 1) to the exit (3, 3).
  Rows are listed from \<open>z = 0\<close>.
\<close>

lemma shuffle_from_numeral:
  "shuffle_from (numeral k) xs r =
     (let j = shd r mod (numeral k + 1)
      in shuffle_from (pred_numeral k) (xs[numeral k := xs ! j, j := xs ! numeral k]) (stl r))"
  by (simp add: numeral_eq_Suc)

lemma shuffle_const0:
  "shuffleArray directions (sconst 0) = ([(2, 0), (0, 2), (-2, 0), (0, -2)], sconst 0)"
  by (simp add: shuffleArray_def directions_def shuffle_from_numeral)

lemma list_update_numeral:
  "(x # xs)[numeral k := y] = x # xs[pred_numeral k := y]"
  by (simp add: numeral_eq_Suc)

lemma example_5_5:
  "\<exists>m' r'. generate (MazeGenerator 5 5) (sconst 0) = Inr (m', r') \<and>
     map (\<lambda>z. map (\<lambda>x. read_cell (grid m') x z) [0, 1, 2, 3, 4]) [0, 1, 2, 3, 4] =
       map (map (\<lambda>v. Inr (Some v)))
        [[1, 1, 1, 1, 1],
         [1, 0, 0, 0, 1],
         [1, 1, 1, 0, 1],
         [1, 0, 0, 2, 1],
         [1, 1, 1, 1, 1]]"
  by (simp add: generate_def MazeGenerator_def signed_modulo_int_def Let_def
      carvePassages.simps carve_loop_Cons inside_def shuffle_const0
      fill_grid_gen fill_row_gen read_cell_def write_cell_def row_at_def
      list_update_numeral)

section \<open>Narrow grids\<close>

text \<open>
  With a width of at most 2 no cell is strictly inside the border: the loop of
  \<open>carvePassages\<close> finds no admissible direction and there is no recursive call.
\<close>

lemma carve_loop_narrow:
  "width m \<le> 2 \<Longrightarrow> carve_loop x z ds m r = Inr (m, r)"
  by (induction ds) (simp_all add: carve_loop_outside inside_def)

lemma carvePassages_narrow:
  assumes "width m \<le> 2" and "write_cell (grid m) x z 0 = Inr g"
  shows "carvePassages x z m r = Inr (m\<lparr>grid := g\<rparr>, snd (shuffleArray directions r))"
proof -
  obtain ds r1 where s: "shuffleArray directions r = (ds, r1)" by (metis surj_pair)
  from assms(1) have "carve_loop x z ds (m\<lparr>grid := g\<rparr>) r1 = Inr (m\<lparr>grid := g\<rparr>, r1)"
    by (intro carve_loop_narrow) simp
  with s show ?thesis by (simp add: carvePassages_unfold [OF assms(2) s])
qed

lemma generate_narrow:
  assumes "constructed m" and "width m \<le> 2" and "3 \<le> height m"
  obtains m' r' where
    "generate m r = Inr (m', r')"
    "width m' = width m" "height m' = height m"
    "end_pos m' = (width m - 2, height m - 2)"
    "\<And>x z. read_cell (grid m') x z =
       (if x = width m - 2 \<and> z = height m - 2 then Inr (Some 2)
        else if x = 1 \<and> z = 1 then Inr (Some 0)
        else read_cell (fill_grid 0 m []) x z)"
proof -
  let ?m0 = "m\<lparr>grid := fill_grid 0 m []\<rparr>"
  from generate_run [OF assms(1,3), of r] obtain m1 r1 g2 g3 g4 where
    c: "carvePassages 1 1 ?m0 r = Inr (m1, r1)" and
    f: "same_frame ?m0 m1" and
    w2: "write_cell (grid m1) 1 1 0 = Inr g2" and
    w3: "write_cell g2 (width m - 2) (height m - 2) 0 = Inr g3" and
    w4: "write_cell g3 (width m - 2) (height m - 2) 2 = Inr g4" and
    g: "generate m r = Inr (m1\<lparr>grid := g4\<rparr>, r1)"
    by blast
  from c obtain g1 where w1: "write_cell (grid ?m0) 1 1 0 = Inr g1"
    by (rule carvePassages_InrD)
  from carvePassages_narrow [OF _ w1, of r] assms(2) c have m1: "m1 = ?m0\<lparr>grid := g1\<rparr>"
    by simp
  have rd1: "read_cell (grid m1) x z =
      (if x = 1 \<and> z = 1 then Inr (Some 0) else read_cell (fill_grid 0 m []) x z)" for x z
    using read_write_cell [OF w1, of x z] by (simp add: m1)
  have rd: "read_cell g4 x z =
      (if x = width m - 2 \<and> z = height m - 2 then Inr (Some 2)
       else if x = 1 \<and> z = 1 then Inr (Some 0) else read_cell (fill_grid 0 m []) x z)" for x z
    by (simp add: read_write_cell [OF w4] read_write_cell [OF w3] read_write_cell [OF w2] rd1)
  show thesis
  proof (rule that [of "m1\<lparr>grid := g4\<rparr>" r1])
    show "generate m r = Inr (m1\<lparr>grid := g4\<rparr>, r1)" by fact
  qed (use f rd assms(1) in \<open>simp_all add: same_frame_def constructed_def\<close>)
qed

section \<open>The constructor in Number arithmetic\<close>

text \<open>
  Below \<open>2 ^ 53\<close> in magnitude nothing is rounded, and on dimensions below \<open>2 ^ 52\<close> the
  two constructors are the same function. \<open>2 ^ 53 + 1\<close> is not a double: it rounds to
  \<open>2 ^ 53\<close>.
\<close>

lemma ulp_small: "n < 2 ^ 53 \<Longrightarrow> ulp n = 1"
  by (simp add: ulp.simps)

lemma round_double_exact: "\<bar>k\<bar> < 2 ^ 53 \<Longrightarrow> round_double k = k"
proof -
  assume "\<bar>k\<bar> < 2 ^ 53"
  then have "nat \<bar>k\<bar> < 2 ^ 53" by simp
  then show ?thesis by (simp add: round_double_def ulp_small)
qed

lemma ulp_2_53: "ulp 9007199254740993 = 2"
  by (subst ulp.simps) (simp add: ulp_small)

lemma round_2_53: "round_double 9007199254740993 = 9007199254740992"
  by (simp add: round_double_def ulp_2_53 Let_def)

lemma MazeGenerator_num_width:
  assumes "\<bar>w\<bar> < 2 ^ 53"
  shows "(if w smod 2 = 0 then round_double (w + 1) else w) = (if even w then w + 1 else w)"
proof (cases "even w")
  case True
  with assms have "\<bar>w + 1\<bar> < 2 ^ 53" by (auto simp: abs_if elim!: evenE)
  with True show ?thesis by (simp add: smod2_zero_iff round_double_exact)
next
  case False
  then show ?thesis by (simp add: smod2_zero_iff)
qed

lemma MazeGenerator_num_safe:
  assumes "\<bar>w\<bar> < 2 ^ 52" and "\<bar>h\<bar> < 2 ^ 52"
  shows "MazeGenerator_num w h = MazeGenerator w h"
proof -
  have e: "round_double (k - 2) = k - 2" if "\<bar>k\<bar> \<le> 2 ^ 52" for k
    using that by (intro round_double_exact) simp
  have w: "(if w smod 2 = 0 then round_double (w + 1) else w) = (if even w then w + 1 else w)"
    using assms(1) by (intro MazeGenerator_num_width) simp
  have h: "(if h smod 2 = 0 then round_double (h + 1) else h) = (if even h then h + 1 else h)"
    using assms(2) by (intro MazeGenerator_num_width) simp
  have "\<bar>if even w then w + 1 else w\<bar> \<le> 2 ^ 52" "\<bar>if even h then h + 1 else h\<bar> \<le> 2 ^ 52"
    using assms by auto
  then show ?thesis
    unfolding MazeGenerator_num_def MazeGenerator_def Let_def w h
    by (simp add: smod2_zero_iff e)
qed

section \<open>The claims\<close>



text \<open>
  C2. For every constructor input with normalized width and height of at least 3,
  \<open>generate\<close> returns, and every border cell of the grid (\<open>x = 0\<close>, \<open>x = width - 1\<close>,
  \<open>z = 0\<close> or \<open>z = height - 1\<close>) holds 1, a wall.
\<close>

theorem border_is_wall:
  assumes "3 \<le> getWidth (MazeGenerator w h)" and "3 \<le> getHeight (MazeGenerator w h)"
  shows "\<exists>m' r'. generate (MazeGenerator w h) r = Inr (m', r') \<and>
    (\<forall>x z. 0 \<le> x \<and> x < getWidth m' \<and> 0 \<le> z \<and> z < getHeight m' \<and>
           (x = 0 \<or> x = getWidth m' - 1 \<or> z = 0 \<or> z = getHeight m' - 1) \<longrightarrow>
           read_cell (grid m') x z = Inr (Some 1) \<and> isWall m' x z = Inr True)"
proof -
  let ?m = "MazeGenerator w h"
  from assms have wh: "3 \<le> width ?m" "3 \<le> height ?m"
    by (simp_all add: getWidth_def getHeight_def)
  show ?thesis
  proof (rule generate_result [OF constructed_MazeGenerator wh, of r])
  fix m' r'
  assume g: "generate ?m r = Inr (m', r')" and
    dims: "width m' = width ?m" "height m' = height ?m" and
    inv: "tree_inv (width ?m) (height ?m) (open_cells m')" and
    vals: "\<And>x z. 0 \<le> x \<Longrightarrow> x < width ?m \<Longrightarrow> 0 \<le> z \<Longrightarrow> z < height ?m \<Longrightarrow>
       read_cell (grid m') x z = Inr (Some 0) \<or> read_cell (grid m') x z = Inr (Some 1) \<or>
       read_cell (grid m') x z = Inr (Some 2)"
  have "read_cell (grid m') x z = Inr (Some 1) \<and> isWall m' x z = Inr True"
    if inb: "0 \<le> x" "x < width m'" "0 \<le> z" "z < height m'"
      and b: "x = 0 \<or> x = width m' - 1 \<or> z = 0 \<or> z = height m' - 1" for x z
  proof -
    have "(x, z) \<notin> open_cells m'"
    proof
      assume "(x, z) \<in> open_cells m'"
      with inv have "0 < x \<and> x < width ?m - 1 \<and> 0 < z \<and> z < height ?m - 1"
        by (auto simp: tree_inv_def)
      with b dims show False by auto
    qed
    then have "isWall m' x z \<noteq> Inr False" by (simp add: open_cells_def)
    with vals [of x z] inb dims show ?thesis
      by (auto simp: isWall_def)
  qed
  then have "\<forall>x z. 0 \<le> x \<and> x < getWidth m' \<and> 0 \<le> z \<and> z < getHeight m' \<and>
           (x = 0 \<or> x = getWidth m' - 1 \<or> z = 0 \<or> z = getHeight m' - 1) \<longrightarrow>
           read_cell (grid m') x z = Inr (Some 1) \<and> isWall m' x z = Inr True"
    unfolding getWidth_def getHeight_def by blast
  with g show ?thesis by blast
  qed
qed

theorem border_is_wall_witness:
  "\<exists>m' r'. generate (MazeGenerator 5 4) (sconst 0) = Inr (m', r') \<and>
     read_cell (grid m') 0 0 = Inr (Some 1) \<and> isWall m' 0 0 = Inr True \<and>
     read_cell (grid m') 4 2 = Inr (Some 1) \<and> isWall m' 4 2 = Inr True"
proof -
  have "3 \<le> getWidth (MazeGenerator 5 4)" "3 \<le> getHeight (MazeGenerator 5 4)"
    by (simp_all add: getWidth_def getHeight_def MazeGenerator_def signed_modulo_int_def)
  from border_is_wall [OF this, of "sconst 0"] obtain m' r' where
    g: "generate (MazeGenerator 5 4) (sconst 0) = Inr (m', r')" and
    b: "\<And>x z. 0 \<le> x \<and> x < getWidth m' \<and> 0 \<le> z \<and> z < getHeight m' \<and>
           (x = 0 \<or> x = getWidth m' - 1 \<or> z = 0 \<or> z = getHeight m' - 1) \<Longrightarrow>
           read_cell (grid m') x z = Inr (Some 1) \<and> isWall m' x z = Inr True"
    by blast
  from generate_shape(1,2) [OF g] have "getWidth m' = 5" "getHeight m' = 5"
    by (simp_all add: getWidth_def getHeight_def MazeGenerator_def signed_modulo_int_def)
  with b [of 0 0] b [of 4 2] have "read_cell (grid m') 0 0 = Inr (Some 1) \<and> isWall m' 0 0 = Inr True"
    "read_cell (grid m') 4 2 = Inr (Some 1) \<and> isWall m' 4 2 = Inr True"
    by simp_all
  with g show ?thesis by blast
qed



text \<open>
  C4 as stated fails. It includes an object on which \<open>generate\<close> has not been called;
  there the grid is the empty array and a query inside the bounds indexes
  \<^verbatim>\<open>undefined\<close>:
\<close>

theorem query_before_generate_counterexample:
  "isWall (MazeGenerator 3 3) 1 1 = Inl TypeError \<and>
   isExit (MazeGenerator 3 3) 1 1 = Inl TypeError"
  by (simp add: isWall_def isExit_def MazeGenerator_def read_cell_def row_at_def
      signed_modulo_int_def)

text \<open>
  C4, amended. On every object that \<open>generate\<close> has returned, \<open>isWall\<close> and \<open>isExit\<close>
  return a boolean at all integer coordinates.
\<close>

theorem queries_total_after_generate:
  assumes "generate m r = Inr (m', r')"
  shows "(\<exists>b. isWall m' x z = Inr b) \<and> (\<exists>b. isExit m' x z = Inr b)"
proof (cases "x < 0 \<or> x \<ge> width m' \<or> z < 0 \<or> z \<ge> height m'")
  case True
  then show ?thesis by (auto simp: isWall_def isExit_def)
next
  case False
  with generate_shape(2,3) [OF assms] obtain v where "read_cell (grid m') x z = Inr v"
    using read_cell_ok [of z "grid m'" x] by auto
  with False show ?thesis by (auto simp: isWall_def isExit_def)
qed

theorem queries_total_after_generate_witness:
  "\<exists>m' r'. generate (MazeGenerator 3 3) (sconst 0) = Inr (m', r') \<and>
     (\<exists>b. isWall m' 1 1 = Inr b) \<and> (\<exists>b. isExit m' 1 1 = Inr b) \<and>
     (\<exists>b. isWall m' 7 (-2) = Inr b) \<and> (\<exists>b. isExit m' 7 (-2) = Inr b)"
proof -
  from generate_returns [OF constructed_MazeGenerator, of 3 3 "sconst 0"]
  obtain m' r' where g: "generate (MazeGenerator 3 3) (sconst 0) = Inr (m', r')"
    by (auto simp: MazeGenerator_3_3)
  from g queries_total_after_generate [OF g, of 1 1]
    queries_total_after_generate [OF g, of 7 "-2"]
  show ?thesis by blast
qed

text \<open>
  C5 as stated fails. It includes a normalized height of at most 2; there the grid has no
  row 1 and the first write of \<open>carvePassages 1 1\<close> raises:
\<close>

theorem generate_degenerate_counterexample:
  "getWidth (MazeGenerator 0 0) \<le> 2 \<and> getHeight (MazeGenerator 0 0) \<le> 2 \<and>
   generate (MazeGenerator 0 0) (sconst 0) = Inl TypeError"
  by (simp add: generate_fails getWidth_def getHeight_def MazeGenerator_def)

text \<open>
  C5, amended. Take a constructor input of magnitude below \<open>2 ^ 32\<close> (a JavaScript array
  has fewer than \<open>2 ^ 32\<close> elements, so beyond it the rows cannot be built). With a
  normalized width of at most 2 and a normalized height of at least 3, \<open>generate\<close> returns
  without a fault, and the grid it returns is trivial: every query of \<open>isWall\<close> is true;
  the two writes that fall outside the bounds leave 0 at (1, 1) and 2 at the end
  coordinate. With a normalized height of at most 2, \<open>generate\<close> raises a TypeError.
\<close>

theorem generate_degenerate:
  assumes "\<bar>w\<bar> < 2 ^ 32" and "\<bar>h\<bar> < 2 ^ 32"
  shows "(getWidth (MazeGenerator w h) \<le> 2 \<and> 3 \<le> getHeight (MazeGenerator w h) \<longrightarrow>
      (\<exists>m' r'. generate (MazeGenerator w h) r = Inr (m', r') \<and>
         (\<forall>x z. isWall m' x z = Inr True) \<and>
         read_cell (grid m') 1 1 = Inr (Some 0) \<and>
         read_cell (grid m') (fst (getEnd m')) (snd (getEnd m')) = Inr (Some 2))) \<and>
   (getHeight (MazeGenerator w h) \<le> 2 \<longrightarrow>
      generate (MazeGenerator w h) r = Inl TypeError)"
proof (intro conjI impI)
  let ?m = "MazeGenerator w h"
  assume "getWidth ?m \<le> 2 \<and> 3 \<le> getHeight ?m"
  then have wh: "width ?m \<le> 2" "3 \<le> height ?m"
    by (simp_all add: getWidth_def getHeight_def)
  have "odd (width ?m)"
    using constructed_MazeGenerator [of w h] by (simp add: constructed_def)
  with wh(1) have w1: "width ?m \<le> 1"
    by (cases "width ?m = 2") auto
  show "\<exists>m' r'. generate ?m r = Inr (m', r') \<and>
         (\<forall>x z. isWall m' x z = Inr True) \<and>
         read_cell (grid m') 1 1 = Inr (Some 0) \<and>
         read_cell (grid m') (fst (getEnd m')) (snd (getEnd m')) = Inr (Some 2)"
  proof (rule generate_narrow [OF constructed_MazeGenerator wh, of r])
    fix m' r'
    assume g: "generate ?m r = Inr (m', r')" and
      dims: "width m' = width ?m" "height m' = height ?m" and
      e: "end_pos m' = (width ?m - 2, height ?m - 2)" and
      rd: "\<And>x z. read_cell (grid m') x z =
       (if x = width ?m - 2 \<and> z = height ?m - 2 then Inr (Some 2)
        else if x = 1 \<and> z = 1 then Inr (Some 0)
        else read_cell (fill_grid 0 ?m []) x z)"
    have walls: "isWall m' x z = Inr True" for x z
      using w1 dims by (auto simp: isWall_def rd read_fill_grid)
    have s: "read_cell (grid m') 1 1 = Inr (Some 0)"
      using w1 by (simp add: rd)
    have x: "read_cell (grid m') (fst (getEnd m')) (snd (getEnd m')) = Inr (Some 2)"
      by (simp add: getEnd_def e rd)
    from g walls s x show ?thesis by blast
  qed
next
  assume "getHeight (MazeGenerator w h) \<le> 2"
  moreover have "odd (height (MazeGenerator w h))"
    using constructed_MazeGenerator [of w h] by (simp add: constructed_def)
  ultimately have "height (MazeGenerator w h) \<le> 1"
    by (cases "height (MazeGenerator w h) = 2") (auto simp: getHeight_def)
  then show "generate (MazeGenerator w h) r = Inl TypeError"
    by (rule generate_fails)
qed

theorem generate_degenerate_witness:
  "(\<exists>m' r'. generate (MazeGenerator 1 3) (sconst 0) = Inr (m', r') \<and>
      (\<forall>x z. isWall m' x z = Inr True) \<and>
      read_cell (grid m') 1 1 = Inr (Some 0) \<and>
      read_cell (grid m') (fst (getEnd m')) (snd (getEnd m')) = Inr (Some 2)) \<and>
   (\<exists>m' r'. generate (MazeGenerator (-4) 2) (sconst 0) = Inr (m', r') \<and>
      (\<forall>x z. isWall m' x z = Inr True) \<and>
      read_cell (grid m') 1 1 = Inr (Some 0) \<and>
      read_cell (grid m') (fst (getEnd m')) (snd (getEnd m')) = Inr (Some 2)) \<and>
   generate (MazeGenerator 1 1) (sconst 0) = Inl TypeError \<and>
   generate (MazeGenerator 7 (-3)) (sconst 0) = Inl TypeError"
  using generate_degenerate [of 1 3 "sconst 0"] generate_degenerate [of "-4" 2 "sconst 0"]
    generate_degenerate [of 1 1 "sconst 0"] generate_degenerate [of 7 "-3" "sconst 0"]
  by (simp add: getHeight_def getWidth_def MazeGenerator_def signed_modulo_int_def)

text \<open>
  C6 as stated fails. Numbers are doubles: \<open>2 ^ 53\<close> is a double and is even, and
  \<open>2 ^ 53 + 1\<close> rounds back to it, so the stored width is even and is not \<open>w + 1\<close>:
\<close>

theorem normalized_dimensions_counterexample:
  "getWidth (MazeGenerator_num (2 ^ 53) 3) = 2 ^ 53 \<and>
   getWidth (MazeGenerator_num (2 ^ 53) 3) \<noteq> 2 ^ 53 + 1 \<and>
   even (getWidth (MazeGenerator_num (2 ^ 53) 3))"
  by (simp add: MazeGenerator_num_def getWidth_def Let_def signed_modulo_int_def round_2_53)

text \<open>
  C6, amended. For every constructor input \<open>(w, h)\<close> of magnitude below \<open>2 ^ 53\<close>: the
  stored width is \<open>w + 1\<close> when \<open>w\<close> is even and \<open>w\<close> when it is odd, likewise for the
  height; \<open>getWidth\<close> and \<open>getHeight\<close> return these values, and they are odd.
\<close>

theorem normalized_dimensions:
  assumes "\<bar>w\<bar> < 2 ^ 53" and "\<bar>h\<bar> < 2 ^ 53"
  shows "getWidth (MazeGenerator_num w h) = (if even w then w + 1 else w) \<and>
   getHeight (MazeGenerator_num w h) = (if even h then h + 1 else h) \<and>
   odd (getWidth (MazeGenerator_num w h)) \<and> odd (getHeight (MazeGenerator_num w h))"
  using MazeGenerator_num_width [OF assms(1)] MazeGenerator_num_width [OF assms(2)]
  by (simp add: MazeGenerator_num_def getWidth_def getHeight_def Let_def)

theorem normalized_dimensions_witness:
  "getWidth (MazeGenerator_num 20 21) = 21 \<and> getHeight (MazeGenerator_num 20 21) = 21 \<and>
   getWidth (MazeGenerator_num (-4) (-7)) = -3 \<and> getHeight (MazeGenerator_num (-4) (-7)) = -7 \<and>
   odd (getWidth (MazeGenerator_num 20 21)) \<and> odd (getHeight (MazeGenerator_num 20 21))"
  using normalized_dimensions [of 20 21] normalized_dimensions [of "-4" "-7"] by simp

text \<open>
  C7. For every maze object and every coordinate out of bounds (\<open>x < 0\<close>, \<open>x \<ge> width\<close>,
  \<open>z < 0\<close> or \<open>z \<ge> height\<close>), \<open>isWall\<close> returns true and \<open>isExit\<close> returns false.
\<close>

theorem out_of_bounds_is_wall:
  "x < 0 \<or> x \<ge> width m \<or> z < 0 \<or> z \<ge> height m \<Longrightarrow>
     isWall m x z = Inr True \<and> isExit m x z = Inr False"
  by (simp add: isWall_def isExit_def)

theorem out_of_bounds_is_wall_witness:
  "isWall (MazeGenerator 5 5) (-1) (-1) = Inr True \<and>
   isExit (MazeGenerator 5 5) (-1) (-1) = Inr False \<and>
   isWall (MazeGenerator 5 5) 5 5 = Inr True \<and>
   isExit (MazeGenerator 5 5) 5 5 = Inr False"
  using out_of_bounds_is_wall [of "-1" "MazeGenerator 5 5" "-1"]
    out_of_bounds_is_wall [of 5 "MazeGenerator 5 5" 5]
  by (simp add: MazeGenerator_def)



text \<open>
  C9. For every maze object and all coordinates: when \<open>isExit\<close> returns true, \<open>isWall\<close>
  returns false.
\<close>

theorem exit_is_not_wall:
  "isExit m x z = Inr True \<Longrightarrow> isWall m x z = Inr False"
  by (auto simp: isExit_def isWall_def split: if_splits sum.splits)

theorem exit_is_not_wall_witness:
  "\<exists>m' r'. generate (MazeGenerator 3 3) (sconst 0) = Inr (m', r') \<and>
     isExit m' 1 1 = Inr True \<and> isWall m' 1 1 = Inr False"
proof (rule generate_result [OF constructed_MazeGenerator, of 3 3 "sconst 0"])
  fix m' r'
  assume g: "generate (MazeGenerator 3 3) (sconst 0) = Inr (m', r')" and
    dims: "width m' = width (MazeGenerator 3 3)" "height m' = height (MazeGenerator 3 3)" and
    two: "\<And>x z. read_cell (grid m') x z = Inr (Some 2) \<longleftrightarrow>
       x = width (MazeGenerator 3 3) - 2 \<and> z = height (MazeGenerator 3 3) - 2"
  from two [of 1 1] have "read_cell (grid m') 1 1 = Inr (Some 2)"
    by (simp add: MazeGenerator_3_3)
  with dims have e: "isExit m' 1 1 = Inr True"
    by (simp add: isExit_def MazeGenerator_3_3)
  from g e exit_is_not_wall [OF e] show ?thesis by blast
qed (simp_all add: MazeGenerator_3_3)

text \<open>
  C10. For the constructor inputs 2 or 3 in each dimension (normalized 3 by 3), \<open>getStart\<close>
  and \<open>getEnd\<close> are both (1, 1), \<open>generate\<close> returns, and the cell (1, 1) of the grid it
  returns holds 2, the exit, not 0: the write of the exit comes last.
\<close>

theorem exit_overwrites_start:
  assumes "w = 2 \<or> w = 3" and "h = 2 \<or> h = 3"
  shows "getStart (MazeGenerator w h) = (1, 1) \<and> getEnd (MazeGenerator w h) = (1, 1) \<and>
    (\<exists>m' r'. generate (MazeGenerator w h) r = Inr (m', r') \<and>
       getStart m' = (1, 1) \<and> getEnd m' = (1, 1) \<and>
       read_cell (grid m') 1 1 = Inr (Some 2) \<and> isExit m' 1 1 = Inr True)"
proof -
  let ?m = "MazeGenerator w h"
  from assms have wh: "width ?m = 3" "height ?m = 3"
    by (auto simp: MazeGenerator_def signed_modulo_int_def)
  then have se0: "getStart ?m = (1, 1)" "getEnd ?m = (1, 1)"
    by (simp_all add: getStart_def getEnd_def MazeGenerator_def Let_def)
  have "\<exists>m' r'. generate ?m r = Inr (m', r') \<and>
       getStart m' = (1, 1) \<and> getEnd m' = (1, 1) \<and>
       read_cell (grid m') 1 1 = Inr (Some 2) \<and> isExit m' 1 1 = Inr True"
  proof (rule generate_result [OF constructed_MazeGenerator, of w h r])
    fix m' r'
    assume g: "generate ?m r = Inr (m', r')" and
      dims: "width m' = width ?m" "height m' = height ?m" and
      se: "start m' = (1, 1)" "end_pos m' = (width ?m - 2, height ?m - 2)" and
      two: "\<And>x z. read_cell (grid m') x z = Inr (Some 2) \<longleftrightarrow>
         x = width ?m - 2 \<and> z = height ?m - 2"
    from two [of 1 1] wh have rd: "read_cell (grid m') 1 1 = Inr (Some 2)" by simp
    with dims wh have "isExit m' 1 1 = Inr True" by (simp add: isExit_def)
    with g se wh rd show ?thesis
      by (intro exI [of _ m'] exI [of _ r']) (simp add: getStart_def getEnd_def)
  qed (simp_all add: wh)
  with se0 show ?thesis by blast
qed

theorem exit_overwrites_start_witness:
  "getStart (MazeGenerator 2 3) = (1, 1) \<and> getEnd (MazeGenerator 2 3) = (1, 1) \<and>
    (\<exists>m' r'. generate (MazeGenerator 2 3) (sconst 0) = Inr (m', r') \<and>
       getStart m' = (1, 1) \<and> getEnd m' = (1, 1) \<and>
       read_cell (grid m') 1 1 = Inr (Some 2) \<and> isExit m' 1 1 = Inr True)"
  by (rule exit_overwrites_start) simp_all

end
